theory Spec2Isabelle
  imports Main "HOL-Library.Char_ord" "HOL-Library.List_Lexorder"
begin

section \<open>Python strings\<close>

text \<open>
  A Python \<open>str\<close> is modelled as a \<open>string\<close>, each \<open>char\<close> standing for the code point
  of the same number (0 to 255). On that range \<open>str.isspace\<close>, \<open>str.lower\<close>,
  \<open>str.strip\<close>, \<open>str.startswith\<close>, \<open>str.endswith\<close> and \<open>str.splitlines\<close> are as follows.
\<close>

definition isspace :: "char \<Rightarrow> bool" where
  "isspace c \<longleftrightarrow> c \<in> set [CHR 0x09, CHR 0x0A, CHR 0x0B, CHR 0x0C, CHR 0x0D,
      CHR 0x1C, CHR 0x1D, CHR 0x1E, CHR 0x1F, CHR 0x20, CHR 0x85, CHR 0xA0]"

definition lower_char :: "char \<Rightarrow> char" where
  "lower_char c = (let n = (of_char c :: nat) in
     if (65 \<le> n \<and> n \<le> 90) \<or> (192 \<le> n \<and> n \<le> 222 \<and> n \<noteq> 215)
     then char_of (n + 32) else c)"

definition lower :: "string \<Rightarrow> string" where
  "lower s = map lower_char s"

definition strip :: "string \<Rightarrow> string" where
  "strip s = rev (dropWhile isspace (rev (dropWhile isspace s)))"

definition startswith :: "string \<Rightarrow> string \<Rightarrow> bool" where
  "startswith s pre \<longleftrightarrow> take (length pre) s = pre"

definition endswith :: "string \<Rightarrow> string \<Rightarrow> bool" where
  "endswith s suf \<longleftrightarrow> length suf \<le> length s \<and> drop (length s - length suf) s = suf"

text \<open>
  \<open>str.splitlines()\<close> without the line ends: a line ends at \<open>\r\n\<close>, or at one of the
  line boundaries below; a last line with no line end counts when it is not empty.
\<close>

definition is_linebreak :: "char \<Rightarrow> bool" where
  "is_linebreak c \<longleftrightarrow> c \<in> set [CHR 0x0A, CHR 0x0B, CHR 0x0C, CHR 0x0D,
      CHR 0x1C, CHR 0x1D, CHR 0x1E, CHR 0x85]"

fun splitlines_acc :: "string \<Rightarrow> string \<Rightarrow> string list" where
  "splitlines_acc cur [] = (if cur = [] then [] else [cur])"
| "splitlines_acc cur [c] = (if is_linebreak c then [cur] else [cur @ [c]])"
| "splitlines_acc cur (c # d # cs) =
     (if c = CHR 0x0D \<and> d = CHR 0x0A then cur # splitlines_acc [] cs
      else if is_linebreak c then cur # splitlines_acc [] (d # cs)
      else splitlines_acc (cur @ [c]) (d # cs))"

definition splitlines :: "string \<Rightarrow> string list" where
  "splitlines s = splitlines_acc [] s"

text \<open>The expression \<open>ln if ln.endswith("\n") else ln + "\n"\<close>, used by every writer.\<close>

definition ensure_nl :: "string \<Rightarrow> string" where
  "ensure_nl ln = (if endswith ln [CHR 0x0A] then ln else ln @ [CHR 0x0A])"

text \<open>\<open>xs.insert(i, x)\<close> for \<open>i \<ge> 0\<close>: an index past the end appends.\<close>

definition list_insert :: "'a list \<Rightarrow> nat \<Rightarrow> 'a \<Rightarrow> 'a list" where
  "list_insert xs i x = take i xs @ x # drop i xs"

section \<open>files.py and the file system\<close>

text \<open>
  The file system is a map from paths to texts. Each primitive may fail, as the run-time
  decides: \<open>faults\<close> says which operations raise. An operation that raises leaves the
  files as they were. \<open>Mkdir_parent p\<close> is \<open>p.parent.mkdir(parents=True, exist_ok=True)\<close>.
\<close>

type_synonym path = string

type_synonym fs = "path \<Rightarrow> string option"

datatype fs_op = Mkdir_parent path | Read_text path | Write_text path | Replace path path | Unlink path

datatype error = OSError fs_op

type_synonym faults = "fs_op \<Rightarrow> bool"

definition fs_mkdir_parent :: "faults \<Rightarrow> path \<Rightarrow> error + unit" where
  "fs_mkdir_parent faults p =
     (if faults (Mkdir_parent p) then Inl (OSError (Mkdir_parent p)) else Inr ())"

definition fs_read_text :: "faults \<Rightarrow> fs \<Rightarrow> path \<Rightarrow> error + string" where
  "fs_read_text faults fs p =
     (if faults (Read_text p) then Inl (OSError (Read_text p))
      else (case fs p of None \<Rightarrow> Inl (OSError (Read_text p)) | Some t \<Rightarrow> Inr t))"

definition fs_write_text :: "faults \<Rightarrow> fs \<Rightarrow> path \<Rightarrow> string \<Rightarrow> (error + unit) \<times> fs" where
  "fs_write_text faults fs p t =
     (if faults (Write_text p) then (Inl (OSError (Write_text p)), fs)
      else (Inr (), fs(p \<mapsto> t)))"

definition fs_replace :: "faults \<Rightarrow> fs \<Rightarrow> path \<Rightarrow> path \<Rightarrow> (error + unit) \<times> fs" where
  "fs_replace faults fs src dst =
     (if faults (Replace src dst) \<or> fs src = None then (Inl (OSError (Replace src dst)), fs)
      else (Inr (), (fs(dst := fs src))(src := None)))"

definition fs_unlink :: "faults \<Rightarrow> fs \<Rightarrow> path \<Rightarrow> (error + unit) \<times> fs" where
  "fs_unlink faults fs p =
     (if faults (Unlink p) \<or> fs p = None then (Inl (OSError (Unlink p)), fs)
      else (Inr (), fs(p := None)))"

text \<open>\<open>_write_text\<close>.\<close>

definition files_write_text :: "faults \<Rightarrow> fs \<Rightarrow> path \<Rightarrow> string \<Rightarrow> (error + unit) \<times> fs" where
  "files_write_text faults fs p t =
     (case fs_mkdir_parent faults p of
        Inl e \<Rightarrow> (Inl e, fs)
      | Inr u \<Rightarrow> fs_write_text faults fs p t)"

text \<open>
  \<open>atomic_write\<close>. The engine's paths end in \<open>.txt\<close>, for which
  \<open>path.with_suffix(path.suffix + ".tmp")\<close> is the path followed by \<open>.tmp\<close>. The error of
  the failed \<open>os.replace\<close> is the one raised again, whatever \<open>unlink\<close> did.
\<close>

definition atomic_write :: "faults \<Rightarrow> fs \<Rightarrow> path \<Rightarrow> string \<Rightarrow> (error + unit) \<times> fs" where
  "atomic_write faults fs p t =
     (let tmp = p @ ''.tmp'' in
      case files_write_text faults fs tmp t of
        (Inl e, fs1) \<Rightarrow> (Inl e, fs1)
      | (Inr u, fs1) \<Rightarrow>
          (case fs_replace faults fs1 tmp p of
             (Inr u, fs2) \<Rightarrow> (Inr (), fs2)
           | (Inl e, fs2) \<Rightarrow>
               (case fs_unlink faults fs2 tmp of
                  (cleanup, fs3) \<Rightarrow> (Inl e, fs3))))"

section \<open>plugins.py\<close>

definition plugin_ext_rank :: "string \<Rightarrow> nat" where
  "plugin_ext_rank name =
     (let n = lower name in
      if endswith n ''.esm'' then 0
      else if endswith n ''.esp'' then 1
      else if endswith n ''.esl'' then 2
      else 3)"

text \<open>
  A file is given by its text, \<open>None\<close> when it is missing or cannot be read: the readers
  catch every exception of \<open>read_text\<close>.
\<close>

definition read_loadorder_file :: "string option \<Rightarrow> string list" where
  "read_loadorder_file file =
     (case file of
        None \<Rightarrow> []
      | Some text \<Rightarrow>
          map strip (filter (\<lambda>ln. strip ln \<noteq> [] \<and> \<not> startswith (strip ln) ''#'') (splitlines text)))"

subsection \<open>Activation list\<close>

text \<open>
  The body of the scan of \<open>_set_plugin_enabled_in_plugins_lines\<close>: whether the line \<open>ln\<close>
  sets \<open>last_idx\<close>.
\<close>

definition plugins_line_hits :: "string \<Rightarrow> string \<Rightarrow> bool" where
  "plugins_line_hits tgt_low ln =
     (let s = strip ln in
      if s = [] \<or> startswith s ''#'' then False
      else (let name = (if startswith s ''*'' then strip (tl s) else s)
            in lower name = tgt_low))"

definition plugins_entry :: "string \<Rightarrow> bool \<Rightarrow> string" where
  "plugins_entry tgt enable = (if enable then ''*'' @ tgt @ [CHR 0x0A] else tgt @ [CHR 0x0A])"

definition set_plugin_enabled_in_plugins_lines ::
    "string list \<Rightarrow> string \<Rightarrow> bool \<Rightarrow> string list \<times> bool" where
  "set_plugin_enabled_in_plugins_lines lines plugin enable =
     (let tgt = strip plugin;
          tgt_low = lower tgt;
          last_idx = fold (\<lambda>(i, ln) last_idx. if plugins_line_hits tgt_low ln then int i else last_idx)
                       (enumerate 0 lines) (- 1)
      in if last_idx \<ge> 0 then
           (let new = lines[nat last_idx := plugins_entry tgt enable]
            in (new, new ! nat last_idx \<noteq> lines ! nat last_idx))
         else (lines @ [plugins_entry tgt enable], True))"

text \<open>
  The writers. The two default header lines of \<open>_write_plugins_file\<close> hold a character
  beyond code point 255 and are a parameter here.
\<close>

definition write_loadorder_file :: "faults \<Rightarrow> fs \<Rightarrow> path \<Rightarrow> string list \<Rightarrow> (error + unit) \<times> fs" where
  "write_loadorder_file faults fs p order =
     (let t = concat (map (\<lambda>n. n @ [CHR 0x0A]) order) in
      case fs_mkdir_parent faults p of
        Inl e \<Rightarrow> (Inl e, fs)
      | Inr u \<Rightarrow> atomic_write faults fs p t)"

definition write_plugins_file ::
    "string list \<Rightarrow> faults \<Rightarrow> fs \<Rightarrow> path \<Rightarrow> string list \<Rightarrow> (error + unit) \<times> fs" where
  "write_plugins_file default_header faults fs p lines =
     (let lines1 = (if lines = [] then default_header else lines);
          lines2 = (if lines1 \<noteq> [] \<and> \<not> endswith (last lines1) [CHR 0x0A]
                    then lines1 @ [[CHR 0x0A]] else lines1)
      in case fs_mkdir_parent faults p of
           Inl e \<Rightarrow> (Inl e, fs)
         | Inr u \<Rightarrow> atomic_write faults fs p (concat lines2))"

subsection \<open>Load-order merger\<close>

text \<open>
  The dictionary \<open>{0: [], 1: [], 2: [], 3: []}\<close> of \<open>_partition_by_ext\<close> is a function from
  the rank to its bucket; \<open>bk.get(pr, [])\<close> is then \<open>bk pr\<close>.
\<close>

type_synonym buckets = "nat \<Rightarrow> string list"

definition partition_by_ext :: "string list \<Rightarrow> buckets" where
  "partition_by_ext order =
     fold (\<lambda>n bk. bk(plugin_ext_rank n := bk (plugin_ext_rank n) @ [n])) order (\<lambda>r. [])"

definition merge_buckets :: "buckets \<Rightarrow> string list" where
  "merge_buckets bk = bk 0 @ bk 1 @ bk 2 @ bk 3"

text \<open>
  \<open>next(i for i, n in enumerate(tgt) if n.strip().lower() == anchor.strip().lower())\<close>;
  \<open>None\<close> stands for \<open>StopIteration\<close>.
\<close>

definition anchor_index :: "string list \<Rightarrow> string \<Rightarrow> nat option" where
  "anchor_index tgt anchor =
     map_option fst (find (\<lambda>(i, n). lower (strip n) = lower (strip anchor)) (enumerate 0 tgt))"

text \<open>An anchor that is \<open>None\<close> or the empty string is false in \<open>if anchor:\<close>.\<close>

definition insert_relative_once ::
    "string list \<Rightarrow> string \<Rightarrow> string option \<Rightarrow> string \<Rightarrow> string list" where
  "insert_relative_once current_order plugin anchor position =
     (let order = filter (\<lambda>n. lower (strip n) \<noteq> lower (strip plugin)) current_order;
          pr = plugin_ext_rank plugin;
          bk = partition_by_ext order;
          tgt = bk pr;
          tgt' = (case anchor of
                    None \<Rightarrow> tgt @ [plugin]
                  | Some a \<Rightarrow>
                      if a = [] then tgt @ [plugin]
                      else if plugin_ext_rank a = pr then
                        (case anchor_index tgt a of
                           None \<Rightarrow> tgt @ [plugin]
                         | Some idx \<Rightarrow>
                             list_insert tgt (if lower position = ''before'' then idx else idx + 1) plugin)
                      else tgt @ [plugin])
      in merge_buckets (bk(pr := tgt')))"

definition pick_anchor_in_current_order :: "string list \<Rightarrow> string set \<Rightarrow> string option" where
  "pick_anchor_in_current_order current_order anchors =
     (if anchors = {} then None
      else find (\<lambda>name. lower name \<in> lower ` anchors) current_order)"

text \<open>
  The placement loop of \<open>sync_new_plugins_incremental\<close>, one step for each new plugin with
  the anchor and the position that its rule gave: each step inserts into the order the
  step before left.
\<close>

definition insert_all :: "string list \<Rightarrow> (string \<times> string option \<times> string) list \<Rightarrow> string list" where
  "insert_all order steps =
     fold (\<lambda>(p, anchor, pos) order. insert_relative_once order p anchor pos) steps order"

section \<open>mo2\_helpers.py\<close>

definition read_modlist :: "faults \<Rightarrow> fs \<Rightarrow> path \<Rightarrow> string list" where
  "read_modlist faults fs p =
     (case fs_read_text faults fs p of Inl e \<Rightarrow> [] | Inr t \<Rightarrow> splitlines t)"

text \<open>\<open>write_modlist\<close> catches every exception of the write and logs it.\<close>

definition write_modlist :: "faults \<Rightarrow> fs \<Rightarrow> path \<Rightarrow> string list \<Rightarrow> (error + unit) \<times> fs" where
  "write_modlist faults fs p lines =
     (let normalized = map ensure_nl lines in
      case fs_write_text faults fs p (concat normalized) of
        (Inl e, fs1) \<Rightarrow> (Inr (), fs1)
      | (Inr u, fs1) \<Rightarrow> (Inr (), fs1))"

text \<open>
  The test \<open>len(s) >= 2 and s[1:].strip() == mod_name\<close> of both loops of
  \<open>set_mod_enabled_in_lines\<close>, and the whole test of its first loop on a line.
\<close>

definition names_mod :: "string \<Rightarrow> string \<Rightarrow> bool" where
  "names_mod s mod_name \<longleftrightarrow> length s \<ge> 2 \<and> strip (tl s) = mod_name"

definition modlist_line_hits :: "string \<Rightarrow> string \<Rightarrow> bool" where
  "modlist_line_hits mod_name ln =
     (let s = strip ln in
      if s = [] \<or> startswith s ''#'' then False
      else names_mod s mod_name)"

definition set_mod_enabled_in_lines :: "string list \<Rightarrow> string \<Rightarrow> bool \<Rightarrow> string list" where
  "set_mod_enabled_in_lines lines mod_name enable =
     (let prefix = (if enable then ''+'' else ''-'');
          entry = prefix @ mod_name;
          norm = map ensure_nl lines;
          positions = map fst (filter (\<lambda>(i, ln). modlist_line_hits mod_name ln) (enumerate 0 norm))
      in if positions = [] then norm @ [entry @ [CHR 0x0A]]
         else (let keep_idx = last positions;
                   filtered = filter (\<lambda>ln. \<not> names_mod (strip ln) mod_name) norm;
                   insert_idx = min keep_idx (length filtered)
               in list_insert filtered insert_idx (entry @ [CHR 0x0A])))"

text \<open>
  The two loops of \<open>apply_mod_sets\<close> on the lines read; \<open>sorted\<close> of a set of strings is
  \<open>sorted_list_of_set\<close> in the order of the code points.
\<close>

definition apply_mod_sets_lines :: "string list \<Rightarrow> string set \<Rightarrow> string set \<Rightarrow> string list" where
  "apply_mod_sets_lines lines mods_to_enable mods_to_disable =
     (let final_enable = mods_to_enable - mods_to_disable;
          final_disable = mods_to_disable;
          lines1 = fold (\<lambda>m ls. set_mod_enabled_in_lines ls m True)
                     (sorted_list_of_set final_enable) lines;
          lines2 = fold (\<lambda>m ls. set_mod_enabled_in_lines ls m False)
                     (sorted_list_of_set final_disable) lines1
      in lines2)"

text \<open>
  \<open>apply_mod_sets\<close> on the mod list at \<open>p\<close>; the result names the branch taken, which the
  function logs. \<open>modlist_path\<close> creates the profile directory first. The listing of the
  mods directory only logs a warning and is left out.
\<close>

datatype apply_outcome = Applied | No_changes

definition apply_mod_sets ::
    "faults \<Rightarrow> fs \<Rightarrow> path \<Rightarrow> string set \<Rightarrow> string set \<Rightarrow> (error + apply_outcome) \<times> fs" where
  "apply_mod_sets faults fs p mods_to_enable mods_to_disable =
     (case fs_mkdir_parent faults p of
        Inl e \<Rightarrow> (Inl e, fs)
      | Inr u \<Rightarrow>
          (let original = read_modlist faults fs p;
               lines = apply_mod_sets_lines original mods_to_enable mods_to_disable
           in if lines \<noteq> original
              then (case write_modlist faults fs p lines of (r, fs1) \<Rightarrow> (Inr Applied, fs1))
              else (Inr No_changes, fs)))"

text \<open>
  The loop of \<open>enabled_mod_names\<close> over the lines of the mod list (the cache keyed by the
  modification time holds the same list).
\<close>

definition enabled_mod_names :: "string list \<Rightarrow> string list" where
  "enabled_mod_names lines =
     map (\<lambda>ln. strip (tl (strip ln)))
       (filter (\<lambda>ln. let s = strip ln in s \<noteq> [] \<and> \<not> startswith s ''#'' \<and> hd s = CHR ''+'') lines)"

section \<open>plugingroups.py\<close>

text \<open>
  A dictionary from strings to strings is an association list with distinct keys in
  insertion order; \<open>d[k] = v\<close> keeps the place of a key already there and appends a new
  one. Two such dictionaries are equal when they hold the same pairs.
\<close>

type_synonym dict = "(string \<times> string) list"

fun dict_set :: "string \<Rightarrow> string \<Rightarrow> dict \<Rightarrow> dict" where
  "dict_set k v [] = [(k, v)]"
| "dict_set k v ((k', v') # kvs) =
     (if k' = k then (k, v) # kvs else (k', v') # dict_set k v kvs)"

definition default_groups_header :: "string list" where
  "default_groups_header = [''# This file is managed by StartupDashboard (plugin_groups)'' @ [CHR 0x0A]]"

text \<open>One turn of the loop of \<open>_read_plugingroups_file\<close>; the state is
  \<open>(mapping, header, others, comments_passed)\<close>.\<close>

definition read_groups_step ::
    "string \<Rightarrow> dict \<times> string list \<times> string list \<times> bool \<Rightarrow> dict \<times> string list \<times> string list \<times> bool" where
  "read_groups_step raw st =
     (case st of (mapping, header, others, comments_passed) \<Rightarrow>
        (let line = rev (dropWhile (\<lambda>c. c = CHR 0x0A) (rev raw));
             s = strip line
         in if s = [] \<or> startswith s ''#'' then
              (if \<not> comments_passed then (mapping, header @ [line], others, comments_passed)
               else (mapping, header, others @ [line], comments_passed))
            else if CHR ''|'' \<in> set s then
              (let left = takeWhile (\<lambda>c. c \<noteq> CHR ''|'') s;
                   right = tl (dropWhile (\<lambda>c. c \<noteq> CHR ''|'') s);
                   plg = strip left;
                   grp = strip right
               in if plg \<noteq> [] \<and> grp \<noteq> [] then (dict_set plg grp mapping, header, others, True)
                  else (mapping, header, others @ [line], True))
            else (mapping, header, others @ [line], True)))"

definition read_plugingroups_file :: "faults \<Rightarrow> fs \<Rightarrow> path \<Rightarrow> dict \<times> string list \<times> string list" where
  "read_plugingroups_file faults fs p =
     (case fs_read_text faults fs p of
        Inl e \<Rightarrow> ([], default_groups_header, [])
      | Inr t \<Rightarrow>
          (case fold read_groups_step (splitlines t) ([], [], [], False) of
             (mapping, header, others, comments_passed) \<Rightarrow>
               (mapping, if header = [] then default_groups_header else header, others)))"

text \<open>
  The kinds of lines of a group document in the words of the specification: a line is a
  comment (or blank) line, or a data line \<open>plugin|group\<close> with both parts non-empty, or
  a free-form line. They are used to state what the reader keeps of a file; the reader
  itself is \<open>read_plugingroups_file\<close> above.
\<close>

definition groups_comment_line :: "string \<Rightarrow> bool" where
  "groups_comment_line l \<longleftrightarrow> strip l = [] \<or> startswith (strip l) ''#''"

definition groups_entry :: "string \<Rightarrow> (string \<times> string) option" where
  "groups_entry l =
     (if groups_comment_line l \<or> CHR ''|'' \<notin> set (strip l) then None
      else (let plg = strip (takeWhile (\<lambda>c. c \<noteq> CHR ''|'') (strip l));
                grp = strip (tl (dropWhile (\<lambda>c. c \<noteq> CHR ''|'') (strip l)))
            in if plg \<noteq> [] \<and> grp \<noteq> [] then Some (plg, grp) else None))"

text \<open>The list \<open>out\<close> that \<open>_write_plugingroups_file\<close> builds and joins.\<close>

definition group_line :: "string \<Rightarrow> string \<Rightarrow> string" where
  "group_line p g = p @ ''|'' @ g @ [CHR 0x0A]"

definition emit_group :: "dict \<Rightarrow> string \<Rightarrow> string list \<times> string list \<Rightarrow> string list \<times> string list" where
  "emit_group mapping p st =
     (case st of (out, seen) \<Rightarrow>
        (case map_of mapping p of
           None \<Rightarrow> (out, seen)
         | Some g \<Rightarrow> if p \<notin> set seen then (out @ [group_line p g], seen @ [p]) else (out, seen)))"

definition plugingroups_out :: "string list \<Rightarrow> dict \<Rightarrow> string list \<Rightarrow> string list \<Rightarrow> string list" where
  "plugingroups_out ordered_plugins mapping header others =
     (let out1 = map ensure_nl header;
          out2 = (if out1 \<noteq> [] \<and> strip (last out1) \<noteq> [] then out1 @ [[CHR 0x0A]] else out1);
          out3 = out2 @ map ensure_nl others;
          st1 = fold (emit_group mapping) ordered_plugins (out3, []);
          st2 = fold (emit_group mapping) (sort_key lower (map fst mapping)) st1
      in fst st2)"

definition write_plugingroups_file ::
    "faults \<Rightarrow> fs \<Rightarrow> path \<Rightarrow> string list \<Rightarrow> dict \<Rightarrow> string list \<Rightarrow> string list \<Rightarrow> (error + unit) \<times> fs" where
  "write_plugingroups_file faults fs p ordered_plugins mapping header others =
     (case fs_mkdir_parent faults p of
        Inl e \<Rightarrow> (Inl e, fs)
      | Inr u \<Rightarrow> atomic_write faults fs p (concat (plugingroups_out ordered_plugins mapping header others)))"

text \<open>The merge loop of \<open>sync_plugingroups\<close>, and the function on the load order at
  \<open>lpath\<close> and the group file at \<open>gpath\<close>; \<open>group_map\<close> is \<open>rules["plugin_groups"]\<close>, a
  dictionary from strings to strings.\<close>

definition merge_group_map :: "dict \<Rightarrow> dict \<Rightarrow> dict" where
  "merge_group_map existing_map group_map =
     fold (\<lambda>(plugin, group) target_map.
             let plg = strip plugin; grp = strip group
             in if plg \<noteq> [] \<and> grp \<noteq> [] then dict_set plg grp target_map else target_map)
          group_map existing_map"

datatype sync_outcome = Groups_missing | Groups_synchronized | Groups_unchanged

definition sync_plugingroups ::
    "faults \<Rightarrow> fs \<Rightarrow> path \<Rightarrow> path \<Rightarrow> dict \<Rightarrow> (error + sync_outcome) \<times> fs" where
  "sync_plugingroups faults fs lpath gpath group_map =
     (if group_map = [] then (Inr Groups_missing, fs)
      else
        (let order = (case fs_read_text faults fs lpath of
                        Inl e \<Rightarrow> []
                      | Inr t \<Rightarrow> map strip (filter (\<lambda>x. strip x \<noteq> []) (splitlines t)))
         in case read_plugingroups_file faults fs gpath of
              (existing_map, header, others) \<Rightarrow>
                (let target_map = merge_group_map existing_map group_map
                 in if set target_map \<noteq> set existing_map then
                      (case write_plugingroups_file faults fs gpath order target_map header others of
                         (Inl e, fs1) \<Rightarrow> (Inl e, fs1)
                       | (Inr u, fs1) \<Rightarrow> (Inr Groups_synchronized, fs1))
                    else (Inr Groups_unchanged, fs))))"

section \<open>Facts about the string primitives\<close>

lemma strip_Nil [simp]: "strip [] = []"
  by (simp add: strip_def)

lemma dropWhile_snoc_keep:
  "\<not> P c \<Longrightarrow> dropWhile P (xs @ [c]) = dropWhile P xs @ [c]"
  by (induction xs) auto

lemma dropWhile_all_append:
  "\<forall>c \<in> set w. P c \<Longrightarrow> dropWhile P (w @ xs) = dropWhile P xs"
  by (induction w) auto

lemma lstrip_cases:
  "(\<forall>c \<in> set s. isspace c) \<and> dropWhile isspace s = []
     \<or> (\<exists>c cs. dropWhile isspace s = c # cs \<and> \<not> isspace c)"
proof (cases "dropWhile isspace s")
  case Nil
  then have "\<forall>c \<in> set s. isspace c" by (simp only: dropWhile_eq_Nil_conv)
  with Nil show ?thesis by simp
next
  case (Cons c cs)
  then have "\<not> isspace c" by (metis hd_dropWhile list.distinct(1) list.sel(1))
  with Cons show ?thesis by simp
qed

lemma strip_Cons_nonspace:
  "\<not> isspace c \<Longrightarrow> strip (c # s) = c # rev (dropWhile isspace (rev s))"
  by (simp add: strip_def dropWhile_snoc_keep)

lemma strip_lstrip: "strip s = strip (dropWhile isspace s)"
  by (simp add: strip_def dropWhile_idem)

lemma strip_eq_Nil_iff: "strip s = [] \<longleftrightarrow> (\<forall>c \<in> set s. isspace c)"
proof -
  consider (blank) "\<forall>c \<in> set s. isspace c" "dropWhile isspace s = []"
    | (nonblank) c cs where "dropWhile isspace s = c # cs" "\<not> isspace c"
    using lstrip_cases [of s] by blast
  then show ?thesis
  proof cases
  case blank
  have "strip s = []" unfolding strip_def blank(2) by simp
  then show ?thesis using blank(1) by simp
next
  case (nonblank c cs)
  have "strip s = strip (c # cs)" using nonblank(1) strip_lstrip [of s] by simp
  then have "strip s \<noteq> []" using nonblank(2) by (simp add: strip_Cons_nonspace)
  moreover have "c \<in> set s" using nonblank(1) by (metis list.set_intros(1) set_dropWhileD)
  ultimately show ?thesis using nonblank(2) by blast
qed
qed

lemma rstrip_last:
  assumes "rev (dropWhile P (rev t)) \<noteq> []"
  shows "\<not> P (last (rev (dropWhile P (rev t))))"
proof -
  have "dropWhile P (rev t) \<noteq> []" using assms by simp
  then have "\<not> P (hd (dropWhile P (rev t)))" by (rule hd_dropWhile)
  then show ?thesis using assms by (simp add: last_rev)
qed

lemma rstrip_id: "t = [] \<or> \<not> P (last t) \<Longrightarrow> rev (dropWhile P (rev t)) = t"
  by (cases t rule: rev_cases) auto

lemma strip_hd_last:
  assumes "strip s \<noteq> []"
  shows "\<not> isspace (hd (strip s)) \<and> \<not> isspace (last (strip s))"
proof -
  consider (blank) "\<forall>c \<in> set s. isspace c" "dropWhile isspace s = []"
    | (nonblank) c cs where "dropWhile isspace s = c # cs" "\<not> isspace c"
    using lstrip_cases [of s] by blast
  then show ?thesis
  proof cases
  case blank
  then show ?thesis using assms by (simp add: strip_eq_Nil_iff)
next
  case (nonblank c cs)
  have e: "strip s = c # rev (dropWhile isspace (rev cs))"
    using nonblank strip_lstrip [of s] by (simp add: strip_Cons_nonspace)
  have "rev (dropWhile isspace (rev (dropWhile isspace s))) \<noteq> []"
    using assms unfolding strip_def .
  then have "\<not> isspace (last (rev (dropWhile isspace (rev (dropWhile isspace s)))))"
    by (rule rstrip_last)
  then have "\<not> isspace (last (strip s))" unfolding strip_def .
  then show ?thesis using e nonblank(2) by simp
qed
qed

lemma strip_id:
  assumes "s \<noteq> []" and "\<not> isspace (hd s)" and "\<not> isspace (last s)"
  shows "strip s = s"
proof -
  have "dropWhile isspace s = s" using assms by (cases s) auto
  moreover have "rev (dropWhile isspace (rev s)) = s" using assms by (intro rstrip_id) simp
  ultimately show ?thesis by (simp add: strip_def)
qed

lemma strip_idem [simp]: "strip (strip s) = strip s"
proof (cases "strip s = []")
  case True
  then show ?thesis by simp
next
  case False
  then show ?thesis using strip_hd_last [OF False] by (intro strip_id) auto
qed

lemma strip_append_spaces:
  assumes "\<forall>c \<in> set w. isspace c"
  shows "strip (s @ w) = strip s"
proof -
  consider (blank) "\<forall>c \<in> set s. isspace c" "dropWhile isspace s = []"
    | (nonblank) c cs where "dropWhile isspace s = c # cs" "\<not> isspace c"
    using lstrip_cases [of s] by blast
  then show ?thesis
  proof cases
  case blank
  then have "\<forall>c \<in> set (s @ w). isspace c" using assms by auto
  then show ?thesis using blank(1) by (metis strip_eq_Nil_iff)
next
  case (nonblank c cs)
  then have "c \<in> set s"
    by (metis list.set_intros(1) set_dropWhileD)
  then have d: "dropWhile isspace (s @ w) = dropWhile isspace s @ w"
    using nonblank(2) by (rule dropWhile_append1)
  have "dropWhile isspace (rev w @ rev (dropWhile isspace s)) = dropWhile isspace (rev (dropWhile isspace s))"
    by (rule dropWhile_all_append) (use assms in simp)
  then show ?thesis by (simp add: strip_def d)
qed
qed

lemma strip_stripped_rstrip: "strip m = m \<Longrightarrow> rev (dropWhile isspace (rev m)) = m"
proof (cases "m = []")
  case True
  then show ?thesis by simp
next
  case False
  assume "strip m = m"
  then have "\<not> isspace (last m)" using strip_hd_last [of m] False by simp
  then show ?thesis by (intro rstrip_id) simp
qed

lemma endswith_single: "endswith s [d] \<longleftrightarrow> s \<noteq> [] \<and> last s = d"
  by (cases s rule: rev_cases) (auto simp: endswith_def)

section \<open>Activation list: frame of the mutation\<close>

lemma last_idx_fold_append:
  "fold (\<lambda>(i, ln) a. if P ln then int i else a) (enumerate n (xs @ [x])) a0 =
     (if P x then int (n + length xs)
      else fold (\<lambda>(i, ln) a. if P ln then int i else a) (enumerate n xs) a0)"
  by (simp add: enumerate_append_eq)

lemma last_idx_fold_none:
  "\<forall>x \<in> set xs. \<not> P x \<Longrightarrow>
     fold (\<lambda>(i, ln) a. if P ln then int i else a) (enumerate n xs) a0 = a0"
  by (induction xs arbitrary: n a0) auto

lemma last_idx_fold_last:
  assumes "k < length xs" and "P (xs ! k)"
      and "\<forall>j. k < j \<and> j < length xs \<longrightarrow> \<not> P (xs ! j)"
  shows "fold (\<lambda>(i, ln) a. if P ln then int i else a) (enumerate n xs) a0 = int (n + k)"
  using assms
proof (induction xs arbitrary: k rule: rev_induct)
  case Nil
  then show ?case by simp
next
  case (snoc x xs)
  show ?case
  proof (cases "k = length xs")
    case True
    with snoc.prems show ?thesis by (simp add: last_idx_fold_append)
  next
    case False
    with snoc.prems have k: "k < length xs" by simp
    have nx: "\<not> P x"
      using snoc.prems(3) k by (metis length_append_singleton lessI nth_append_length)
    have "P (xs ! k)" using snoc.prems(2) k by (simp add: nth_append)
    moreover have "\<forall>j. k < j \<and> j < length xs \<longrightarrow> \<not> P (xs ! j)"
    proof (intro allI impI)
      fix j assume j: "k < j \<and> j < length xs"
      then have "\<not> P ((xs @ [x]) ! j)" using snoc.prems(3) by simp
      with j show "\<not> P (xs ! j)" by (simp add: nth_append)
    qed
    ultimately show ?thesis using snoc.IH k nx by (simp add: last_idx_fold_append)
  qed
qed

text \<open>
  C10. \<open>_set_plugin_enabled_in_plugins_lines\<close> rewrites only the line at the position of
  the last case-insensitive occurrence of the plugin and leaves every other line where it
  was, earlier duplicates included (the length is unchanged); when no line names the plugin
  it appends one line to the unchanged list.
\<close>

theorem set_plugin_enabled_frame:
  "(\<forall>k. k < length lines
        \<and> plugins_line_hits (lower (strip plugin)) (lines ! k)
        \<and> (\<forall>j. k < j \<and> j < length lines \<longrightarrow> \<not> plugins_line_hits (lower (strip plugin)) (lines ! j))
      \<longrightarrow> fst (set_plugin_enabled_in_plugins_lines lines plugin enable)
            = lines[k := plugins_entry (strip plugin) enable]
        \<and> length (fst (set_plugin_enabled_in_plugins_lines lines plugin enable)) = length lines
        \<and> (\<forall>i. i < length lines \<and> i \<noteq> k \<longrightarrow>
              fst (set_plugin_enabled_in_plugins_lines lines plugin enable) ! i = lines ! i))
   \<and> ((\<forall>ln \<in> set lines. \<not> plugins_line_hits (lower (strip plugin)) ln)
      \<longrightarrow> fst (set_plugin_enabled_in_plugins_lines lines plugin enable)
            = lines @ [plugins_entry (strip plugin) enable])"
proof (intro conjI allI impI)
  fix k
  assume h: "k < length lines
        \<and> plugins_line_hits (lower (strip plugin)) (lines ! k)
        \<and> (\<forall>j. k < j \<and> j < length lines \<longrightarrow> \<not> plugins_line_hits (lower (strip plugin)) (lines ! j))"
  have idx: "fold (\<lambda>(i, ln) a. if plugins_line_hits (lower (strip plugin)) ln then int i else a)
               (enumerate 0 lines) (- 1) = int k"
    using last_idx_fold_last [of k lines "plugins_line_hits (lower (strip plugin))" 0 "- 1"] h
    by simp
  show r: "fst (set_plugin_enabled_in_plugins_lines lines plugin enable)
            = lines[k := plugins_entry (strip plugin) enable]"
    by (simp add: set_plugin_enabled_in_plugins_lines_def Let_def idx)
  show "length (fst (set_plugin_enabled_in_plugins_lines lines plugin enable)) = length lines"
    by (simp add: r)
  fix i
  assume "i < length lines \<and> i \<noteq> k"
  then show "fst (set_plugin_enabled_in_plugins_lines lines plugin enable) ! i = lines ! i"
    by (simp add: r)
next
  assume "\<forall>ln \<in> set lines. \<not> plugins_line_hits (lower (strip plugin)) ln"
  then have "fold (\<lambda>(i, ln) a. if plugins_line_hits (lower (strip plugin)) ln then int i else a)
               (enumerate 0 lines) (- 1) = - 1"
    by (rule last_idx_fold_none)
  then show "fst (set_plugin_enabled_in_plugins_lines lines plugin enable)
            = lines @ [plugins_entry (strip plugin) enable]"
    by (simp add: set_plugin_enabled_in_plugins_lines_def Let_def)
qed

theorem set_plugin_enabled_frame_witness:
  "fst (set_plugin_enabled_in_plugins_lines
          [''*a.esp'' @ [CHR 0x0A], ''# c'' @ [CHR 0x0A], ''A.ESP'' @ [CHR 0x0A], ''b.esp'' @ [CHR 0x0A]]
          ''a.esp'' True)
     = [''*a.esp'' @ [CHR 0x0A], ''# c'' @ [CHR 0x0A], ''*a.esp'' @ [CHR 0x0A], ''b.esp'' @ [CHR 0x0A]]
   \<and> fst (set_plugin_enabled_in_plugins_lines [''# c'' @ [CHR 0x0A]] ''a.esp'' True)
     = [''# c'' @ [CHR 0x0A], ''*a.esp'' @ [CHR 0x0A]]"
proof -
  let ?ls = "[''*a.esp'' @ [CHR 0x0A], ''# c'' @ [CHR 0x0A], ''A.ESP'' @ [CHR 0x0A], ''b.esp'' @ [CHR 0x0A]]"
  have h0: "plugins_line_hits (lower (strip ''a.esp'')) (?ls ! 2)" by code_simp
  have h3: "\<not> plugins_line_hits (lower (strip ''a.esp'')) (?ls ! 3)" by code_simp
  have later: "\<forall>j. 2 < j \<and> j < length ?ls \<longrightarrow> \<not> plugins_line_hits (lower (strip ''a.esp'')) (?ls ! j)"
  proof (intro allI impI)
    fix j :: nat assume "2 < j \<and> j < length ?ls"
    then have "j = 3" by simp
    with h3 show "\<not> plugins_line_hits (lower (strip ''a.esp'')) (?ls ! j)" by simp
  qed
  have e: "plugins_entry (strip ''a.esp'') True = ''*a.esp'' @ [CHR 0x0A]" by code_simp
  have none: "\<forall>ln \<in> set [''# c'' @ [CHR 0x0A]]. \<not> plugins_line_hits (lower (strip ''a.esp'')) ln"
    by code_simp
  note t = set_plugin_enabled_frame [of ?ls "''a.esp''" True]
  note t1 = t [THEN conjunct1, THEN spec [where x = "2::nat"], THEN mp, THEN conjunct1]
  have a: "fst (set_plugin_enabled_in_plugins_lines ?ls ''a.esp'' True)
             = ?ls[2 := plugins_entry (strip ''a.esp'') True]"
  proof (rule t1, intro conjI)
    show "2 < length ?ls" by simp
    show "plugins_line_hits (lower (strip ''a.esp'')) (?ls ! 2)" by (rule h0)
    show "\<forall>j. 2 < j \<and> j < length ?ls \<longrightarrow> \<not> plugins_line_hits (lower (strip ''a.esp'')) (?ls ! j)"
      by (rule later)
  qed
  note u = set_plugin_enabled_frame [of "[''# c'' @ [CHR 0x0A]]" "''a.esp''" True]
  have b: "fst (set_plugin_enabled_in_plugins_lines [''# c'' @ [CHR 0x0A]] ''a.esp'' True)
             = [''# c'' @ [CHR 0x0A]] @ [plugins_entry (strip ''a.esp'') True]"
    by (rule u [THEN conjunct2, THEN mp]) (rule none)
  show ?thesis using a b by (simp add: e)
qed

section \<open>Load-order merger: placement and rank partition\<close>

lemma partition_fold:
  "fold (\<lambda>n bk. bk(plugin_ext_rank n := bk (plugin_ext_rank n) @ [n])) order bk0 r
     = bk0 r @ filter (\<lambda>n. plugin_ext_rank n = r) order"
  by (induction order arbitrary: bk0) auto

lemma partition_by_ext_filter:
  "partition_by_ext order r = filter (\<lambda>n. plugin_ext_rank n = r) order"
  by (simp add: partition_by_ext_def partition_fold)

lemma plugin_ext_rank_le3: "plugin_ext_rank n \<le> 3"
  by (simp add: plugin_ext_rank_def Let_def)

lemma rank_cases: "plugin_ext_rank n = 0 \<or> plugin_ext_rank n = 1 \<or> plugin_ext_rank n = 2 \<or> plugin_ext_rank n = 3"
  by (simp add: plugin_ext_rank_def Let_def)

lemma sorted_rank_partition:
  "sorted (map plugin_ext_rank xs) \<Longrightarrow>
     filter (\<lambda>n. plugin_ext_rank n = 0) xs @ filter (\<lambda>n. plugin_ext_rank n = 1) xs
       @ filter (\<lambda>n. plugin_ext_rank n = 2) xs @ filter (\<lambda>n. plugin_ext_rank n = 3) xs = xs"
proof (induction xs)
  case Nil
  then show ?case by simp
next
  case (Cons x xs)
  then have le: "\<forall>y \<in> set xs. plugin_ext_rank x \<le> plugin_ext_rank y" by simp
  have ih: "filter (\<lambda>n. plugin_ext_rank n = 0) xs @ filter (\<lambda>n. plugin_ext_rank n = 1) xs
       @ filter (\<lambda>n. plugin_ext_rank n = 2) xs @ filter (\<lambda>n. plugin_ext_rank n = 3) xs = xs"
    using Cons by simp
  have empty: "\<And>r. r < plugin_ext_rank x \<Longrightarrow> filter (\<lambda>n. plugin_ext_rank n = r) xs = []"
    using le by (auto simp: filter_empty_conv)
  from rank_cases [of x] show ?case
  proof (elim disjE)
    assume "plugin_ext_rank x = 0" then show ?thesis using ih by simp
  next
    assume r: "plugin_ext_rank x = 1"
    with empty [of 0] ih show ?thesis by simp
  next
    assume r: "plugin_ext_rank x = 2"
    with empty [of 0] empty [of 1] ih show ?thesis by simp
  next
    assume r: "plugin_ext_rank x = 3"
    with empty [of 0] empty [of 1] empty [of 2] ih show ?thesis by simp
  qed
qed


lemma merge_buckets_sorted:
  assumes "\<forall>r. \<forall>n \<in> set (bk r). plugin_ext_rank n = r"
  shows "sorted (map plugin_ext_rank (merge_buckets bk))"
proof -
  have c: "\<And>r. map plugin_ext_rank (bk r) = replicate (length (bk r)) r"
    using assms by (simp add: map_replicate_const [symmetric] cong: map_cong)
  show ?thesis
    by (auto simp: merge_buckets_def c sorted_append)
qed

lemma insert_relative_once_shape:
  "\<exists>j \<le> length (partition_by_ext (filter (\<lambda>n. lower (strip n) \<noteq> lower (strip plugin)) current_order)
                   (plugin_ext_rank plugin)).
     insert_relative_once current_order plugin anchor position =
       merge_buckets ((partition_by_ext (filter (\<lambda>n. lower (strip n) \<noteq> lower (strip plugin)) current_order))
         (plugin_ext_rank plugin :=
            take j (partition_by_ext (filter (\<lambda>n. lower (strip n) \<noteq> lower (strip plugin)) current_order)
                      (plugin_ext_rank plugin))
            @ plugin #
            drop j (partition_by_ext (filter (\<lambda>n. lower (strip n) \<noteq> lower (strip plugin)) current_order)
                      (plugin_ext_rank plugin))))"
  (is "\<exists>j \<le> length ?tgt. _ = merge_buckets (?bk (?pr := take j ?tgt @ plugin # drop j ?tgt))")
proof -
  have app: "?tgt @ [plugin] = take (length ?tgt) ?tgt @ plugin # drop (length ?tgt) ?tgt"
    by simp
  have ins: "\<And>i. list_insert ?tgt i plugin
               = take (min i (length ?tgt)) ?tgt @ plugin # drop (min i (length ?tgt)) ?tgt"
    by (simp add: list_insert_def min_def)
  define tgt' where "tgt' = (case anchor of
                    None \<Rightarrow> ?tgt @ [plugin]
                  | Some a \<Rightarrow>
                      if a = [] then ?tgt @ [plugin]
                      else if plugin_ext_rank a = ?pr then
                        (case anchor_index ?tgt a of
                           None \<Rightarrow> ?tgt @ [plugin]
                         | Some idx \<Rightarrow>
                             list_insert ?tgt (if lower position = ''before'' then idx else idx + 1) plugin)
                      else ?tgt @ [plugin])"
  have r: "insert_relative_once current_order plugin anchor position = merge_buckets (?bk (?pr := tgt'))"
    by (simp add: insert_relative_once_def Let_def tgt'_def)
  have ex_ins: "\<And>i. \<exists>j \<le> length ?tgt. list_insert ?tgt i plugin = take j ?tgt @ plugin # drop j ?tgt"
  proof -
    fix i
    show "\<exists>j \<le> length ?tgt. list_insert ?tgt i plugin = take j ?tgt @ plugin # drop j ?tgt"
      using ins [of i] by (intro exI [of _ "min i (length ?tgt)"]) simp
  qed
  have ex_app: "\<exists>j \<le> length ?tgt. ?tgt @ [plugin] = take j ?tgt @ plugin # drop j ?tgt"
    by (intro exI [of _ "length ?tgt"]) simp
  have "\<exists>j \<le> length ?tgt. tgt' = take j ?tgt @ plugin # drop j ?tgt"
  proof (cases anchor)
    case None
    then show ?thesis using ex_app by (simp add: tgt'_def)
  next
    case (Some a)
    show ?thesis
    proof (cases "a \<noteq> [] \<and> plugin_ext_rank a = ?pr")
      case False
      then show ?thesis using ex_app Some by (auto simp add: tgt'_def)
    next
      case True
      show ?thesis
      proof (cases "anchor_index ?tgt a")
        case None
        then show ?thesis using ex_app Some True by (simp add: tgt'_def)
      next
        case (Some idx)
        have "tgt' = list_insert ?tgt (if lower position = ''before'' then idx else idx + 1) plugin"
          using Some \<open>anchor = Some a\<close> True by (simp add: tgt'_def)
        then show ?thesis using ex_ins by simp
      qed
    qed
  qed
  with r show ?thesis by metis
qed

lemma insert_relative_once_sorted:
  "sorted (map plugin_ext_rank (insert_relative_once current_order plugin anchor position))"
proof -
  obtain j where
    r: "insert_relative_once current_order plugin anchor position =
       merge_buckets ((partition_by_ext (filter (\<lambda>n. lower (strip n) \<noteq> lower (strip plugin)) current_order))
         (plugin_ext_rank plugin :=
            take j (partition_by_ext (filter (\<lambda>n. lower (strip n) \<noteq> lower (strip plugin)) current_order)
                      (plugin_ext_rank plugin))
            @ plugin #
            drop j (partition_by_ext (filter (\<lambda>n. lower (strip n) \<noteq> lower (strip plugin)) current_order)
                      (plugin_ext_rank plugin))))"
    using insert_relative_once_shape by blast
  show ?thesis
    unfolding r
    by (rule merge_buckets_sorted) (auto simp: partition_by_ext_filter dest: in_set_takeD in_set_dropD)
qed


lemma merge_partition_filter:
  "merge_buckets (partition_by_ext xs) =
     filter (\<lambda>n. plugin_ext_rank n = 0) xs @ filter (\<lambda>n. plugin_ext_rank n = 1) xs
       @ filter (\<lambda>n. plugin_ext_rank n = 2) xs @ filter (\<lambda>n. plugin_ext_rank n = 3) xs"
  by (simp add: merge_buckets_def partition_by_ext_filter)

lemma filter_rank_merge_partition:
  "filter (\<lambda>n. plugin_ext_rank n = r) (merge_buckets (partition_by_ext xs))
     = filter (\<lambda>n. plugin_ext_rank n = r) xs"
proof -
  have none: "\<And>q. q \<noteq> r \<Longrightarrow>
      filter (\<lambda>n. plugin_ext_rank n = r) (filter (\<lambda>n. plugin_ext_rank n = q) xs) = []"
    by (auto simp: filter_empty_conv)
  have same: "filter (\<lambda>n. plugin_ext_rank n = r) (filter (\<lambda>n. plugin_ext_rank n = r) xs)
                = filter (\<lambda>n. plugin_ext_rank n = r) xs"
    by simp
  have big: "3 < r \<Longrightarrow> filter (\<lambda>n. plugin_ext_rank n = r) xs = []"
    using plugin_ext_rank_le3 by (fastforce simp: filter_empty_conv not_less [symmetric])
  have "r = 0 \<or> r = 1 \<or> r = 2 \<or> r = 3 \<or> 3 < r" by arith
  then show ?thesis
  proof (elim disjE)
    assume "r = 0" then show ?thesis
      using none [of 1] none [of 2] none [of 3] by (simp add: merge_partition_filter)
  next
    assume "r = 1" then show ?thesis
      using none [of 0] none [of 2] none [of 3] by (simp add: merge_partition_filter)
  next
    assume "r = 2" then show ?thesis
      using none [of 0] none [of 1] none [of 3] by (simp add: merge_partition_filter)
  next
    assume "r = 3" then show ?thesis
      using none [of 0] none [of 1] none [of 2] by (simp add: merge_partition_filter)
  next
    assume r: "3 < r"
    then show ?thesis
      using none [of 0] none [of 1] none [of 2] none [of 3] big
      by (simp add: merge_partition_filter)
  qed
qed

lemma splice_into_bucket:
  assumes j: "j \<le> length (partition_by_ext xs (plugin_ext_rank p))"
  shows "\<exists>k \<le> length (merge_buckets (partition_by_ext xs)).
           merge_buckets ((partition_by_ext xs)(plugin_ext_rank p :=
               take j (partition_by_ext xs (plugin_ext_rank p)) @ p #
               drop j (partition_by_ext xs (plugin_ext_rank p))))
             = take k (merge_buckets (partition_by_ext xs)) @ p # drop k (merge_buckets (partition_by_ext xs))
         \<and> (\<forall>n \<in> set (take k (merge_buckets (partition_by_ext xs))). plugin_ext_rank n \<le> plugin_ext_rank p)
         \<and> (\<forall>n \<in> set (drop k (merge_buckets (partition_by_ext xs))). plugin_ext_rank p \<le> plugin_ext_rank n)"
proof -
  let ?B = "partition_by_ext xs"
  have rk: "\<And>r n. n \<in> set (?B r) \<Longrightarrow> plugin_ext_rank n = r"
    by (simp add: partition_by_ext_filter)
  have rkt: "\<And>r n i. n \<in> set (take i (?B r)) \<Longrightarrow> plugin_ext_rank n = r"
    using rk by (blast dest: in_set_takeD)
  have rkd: "\<And>r n i. n \<in> set (drop i (?B r)) \<Longrightarrow> plugin_ext_rank n = r"
    using rk by (blast dest: in_set_dropD)
  from rank_cases [of p] show ?thesis
  proof (elim disjE)
    assume r: "plugin_ext_rank p = 0"
    show ?thesis
      using j r rk rkt rkd
      by (intro exI [of _ j]) (auto simp: merge_buckets_def)
  next
    assume r: "plugin_ext_rank p = 1"
    show ?thesis
      using j r rk rkt rkd
      by (intro exI [of _ "length (?B 0) + j"]) (auto simp: merge_buckets_def)
  next
    assume r: "plugin_ext_rank p = 2"
    show ?thesis
      using j r rk rkt rkd
      by (intro exI [of _ "length (?B 0) + length (?B 1) + j"]) (auto simp: merge_buckets_def)
  next
    assume r: "plugin_ext_rank p = 3"
    show ?thesis
      using j r rk rkt rkd
      by (intro exI [of _ "length (?B 0) + length (?B 1) + length (?B 2) + j"])
         (auto simp: merge_buckets_def)
  qed
qed

lemma insert_all_snoc:
  "insert_all order (steps @ [(p, a, pos)]) = insert_relative_once (insert_all order steps) p a pos"
  by (simp add: insert_all_def)

text \<open>
  C3. Whatever the input order and whatever plugins, anchors and positions the placement
  loop goes through, in whatever sequence, the order it leaves is rank-partitioned: the
  ranks never decrease along the list, so every rank 0 (\<open>.esm\<close>) entry precedes every rank 1
  (\<open>.esp\<close>) entry, which precedes every rank 2 (\<open>.esl\<close>) entry, which precedes every other
  entry. When the loop places nothing the order is the input itself, rank-partitioned when
  the input was.
\<close>

theorem insert_all_rank_partitioned:
  "steps \<noteq> [] \<or> sorted (map plugin_ext_rank order) \<Longrightarrow>
     sorted (map plugin_ext_rank (insert_all order steps))"
proof (cases steps rule: rev_cases)
  case Nil
  assume "steps \<noteq> [] \<or> sorted (map plugin_ext_rank order)"
  with Nil show ?thesis by (simp add: insert_all_def)
next
  case (snoc ys y)
  obtain p a pos where y: "y = (p, a, pos)" by (cases y) auto
  show ?thesis
    unfolding snoc y insert_all_snoc by (rule insert_relative_once_sorted)
qed



theorem insert_all_rank_partitioned_witness:
  "insert_all [''z.esp'', ''A.esm''] [(''X.esp'', Some ''z.esp'', ''before''), (''Y.esm'', None, ''end'')]
     = [''A.esm'', ''Y.esm'', ''X.esp'', ''z.esp'']
   \<and> sorted (map plugin_ext_rank
        (insert_all [''z.esp'', ''A.esm''] [(''X.esp'', Some ''z.esp'', ''before''), (''Y.esm'', None, ''end'')]))"
proof -
  have ne: "[(''X.esp'', Some ''z.esp'', ''before''), (''Y.esm'', None, ''end'')] \<noteq> []
              \<or> sorted (map plugin_ext_rank [''z.esp'', ''A.esm''])"
    by simp
  have v: "insert_all [''z.esp'', ''A.esm''] [(''X.esp'', Some ''z.esp'', ''before''), (''Y.esm'', None, ''end'')]
     = [''A.esm'', ''Y.esm'', ''X.esp'', ''z.esp'']"
    by code_simp
  show ?thesis
    using insert_all_rank_partitioned [OF ne] v by blast
qed

lemma read_loadorder_file_stripped:
  "n \<in> set (read_loadorder_file f) \<Longrightarrow> strip n = n \<and> n \<noteq> []"
  by (auto simp: read_loadorder_file_def split: option.splits)


lemma find_Some_split:
  "find P xs = Some a \<Longrightarrow> \<exists>ys zs. xs = ys @ a # zs \<and> P a \<and> (\<forall>y \<in> set ys. \<not> P y)"
proof (induction xs)
  case Nil
  then show ?case by simp
next
  case (Cons x xs)
  show ?case
  proof (cases "P x")
    case True
    with Cons.prems have "x = a" by simp
    with True show ?thesis by (intro exI [of _ "[]"] exI [of _ xs]) simp
  next
    case False
    with Cons.prems have "find P xs = Some a" by simp
    then obtain ys zs where "xs = ys @ a # zs" "P a" "\<forall>y \<in> set ys. \<not> P y"
      using Cons.IH by blast
    with False show ?thesis by (intro exI [of _ "x # ys"] exI [of _ zs]) simp
  qed
qed

lemma find_enumerate_first:
  "\<forall>y \<in> set pre. \<not> Q y \<Longrightarrow> Q n \<Longrightarrow>
     find (\<lambda>(i, x). Q x) (enumerate k (pre @ n # post)) = Some (k + length pre, n)"
  by (induction pre arbitrary: k) auto

lemma anchor_index_first:
  assumes "\<forall>y \<in> set pre. lower (strip y) \<noteq> lower (strip a)"
      and "lower (strip n) = lower (strip a)"
  shows "anchor_index (pre @ n # post) a = Some (length pre)"
  using find_enumerate_first [of pre "\<lambda>x. lower (strip x) = lower (strip a)" n 0 post] assms
  by (simp add: anchor_index_def)

lemma pick_anchor_split:
  assumes "pick_anchor_in_current_order order anchors = Some a"
  shows "\<exists>ys zs. order = ys @ a # zs \<and> (\<forall>y \<in> set ys. lower y \<noteq> lower a)"
proof -
  have "find (\<lambda>name. lower name \<in> lower ` anchors) order = Some a"
    using assms by (simp add: pick_anchor_in_current_order_def split: if_splits)
  then obtain ys zs where s: "order = ys @ a # zs" "lower a \<in> lower ` anchors"
      "\<forall>y \<in> set ys. lower y \<notin> lower ` anchors"
    using find_Some_split [of "\<lambda>name. lower name \<in> lower ` anchors" order a] by blast
  then have "\<forall>y \<in> set ys. lower y \<noteq> lower a" by metis
  with s(1) show ?thesis by blast
qed

lemma filter_new_id:
  "\<forall>n \<in> set order. lower (strip n) \<noteq> lower (strip plugin) \<Longrightarrow>
     filter (\<lambda>n. lower (strip n) \<noteq> lower (strip plugin)) order = order"
  by (simp add: filter_id_conv)

lemma insert_relative_once_no_anchor:
  "anchor = None \<or> anchor = Some [] \<or> (\<exists>a. anchor = Some a \<and> plugin_ext_rank a \<noteq> plugin_ext_rank plugin) \<Longrightarrow>
   insert_relative_once current_order plugin anchor position =
     merge_buckets ((partition_by_ext (filter (\<lambda>n. lower (strip n) \<noteq> lower (strip plugin)) current_order))
        (plugin_ext_rank plugin :=
           partition_by_ext (filter (\<lambda>n. lower (strip n) \<noteq> lower (strip plugin)) current_order)
             (plugin_ext_rank plugin) @ [plugin]))"
  by (auto simp: insert_relative_once_def Let_def)

lemma split_first_unique:
  "xs = pre @ a # post \<Longrightarrow> a \<notin> set pre \<Longrightarrow>
     pre = takeWhile (\<lambda>x. x \<noteq> a) xs \<and> post = tl (dropWhile (\<lambda>x. x \<noteq> a) xs)"
  by (induction pre arbitrary: xs) auto

lemma plugin_ext_rank_classes:
  "(plugin_ext_rank n = 0 \<longleftrightarrow> endswith (lower n) ''.esm'')
   \<and> (plugin_ext_rank n = 1 \<longleftrightarrow> endswith (lower n) ''.esp'')
   \<and> (plugin_ext_rank n = 2 \<longleftrightarrow> endswith (lower n) ''.esl'')
   \<and> (plugin_ext_rank n = 3 \<longleftrightarrow> \<not> endswith (lower n) ''.esm''
         \<and> \<not> endswith (lower n) ''.esp'' \<and> \<not> endswith (lower n) ''.esl'')"
proof -
  have x1: "endswith s ''.esm'' \<Longrightarrow> \<not> endswith s ''.esp''" for s
    by (auto simp: endswith_def)
  have x2: "endswith s ''.esm'' \<Longrightarrow> \<not> endswith s ''.esl''" for s
    by (auto simp: endswith_def)
  have x3: "endswith s ''.esp'' \<Longrightarrow> \<not> endswith s ''.esl''" for s
    by (auto simp: endswith_def)
  show ?thesis
    using x1 [of "lower n"] x2 [of "lower n"] x3 [of "lower n"]
    by (auto simp: plugin_ext_rank_def Let_def)
qed

text \<open>
  C2. The order is the one \<open>_read_loadorder_file\<close> returns and the plugin is new (no entry
  equals it up to case and surrounding blanks). When the anchor picked from that order has
  the rank of the plugin, the plugin is spliced into that rank's bucket immediately before
  the anchor if the position is \<open>before\<close> (in any letter case) and immediately after it
  otherwise; when the picked anchor has another rank, or there is no anchor, the plugin is
  appended to its own rank's bucket. The other buckets are as they were. The rank is that of
  the extension: 0 for \<open>.esm\<close>, 1 for \<open>.esp\<close>, 2 for \<open>.esl\<close>, 3 for any other name, the
  case of the letters aside.
\<close>

theorem insert_relative_once_anchor:
  fixes content :: "string option" and plugin position :: string and anchors :: "string set"
  defines "order \<equiv> read_loadorder_file content"
  defines "pr \<equiv> plugin_ext_rank plugin"
  assumes new: "\<forall>n \<in> set order. lower (strip n) \<noteq> lower (strip plugin)"
  shows
    "(\<forall>n. (plugin_ext_rank n = 0 \<longleftrightarrow> endswith (lower n) ''.esm'')
          \<and> (plugin_ext_rank n = 1 \<longleftrightarrow> endswith (lower n) ''.esp'')
          \<and> (plugin_ext_rank n = 2 \<longleftrightarrow> endswith (lower n) ''.esl'')
          \<and> (plugin_ext_rank n = 3 \<longleftrightarrow> \<not> endswith (lower n) ''.esm''
                \<and> \<not> endswith (lower n) ''.esp'' \<and> \<not> endswith (lower n) ''.esl''))
     \<and> (\<forall>a. pick_anchor_in_current_order order anchors = Some a \<and> plugin_ext_rank a = pr \<longrightarrow>
        (\<exists>pre post. partition_by_ext order pr = pre @ a # post \<and> a \<notin> set pre \<and>
           insert_relative_once order plugin (Some a) position =
             merge_buckets ((partition_by_ext order)(pr :=
               (if lower position = ''before'' then pre @ plugin # a # post
                else pre @ a # plugin # post)))))
     \<and> (\<forall>a. pick_anchor_in_current_order order anchors = Some a \<and> plugin_ext_rank a \<noteq> pr \<longrightarrow>
           insert_relative_once order plugin (Some a) position =
             merge_buckets ((partition_by_ext order)(pr := partition_by_ext order pr @ [plugin])))
     \<and> insert_relative_once order plugin None position =
           merge_buckets ((partition_by_ext order)(pr := partition_by_ext order pr @ [plugin]))"
proof (intro conjI allI impI)
  fix n
  show "plugin_ext_rank n = 0 \<longleftrightarrow> endswith (lower n) ''.esm''"
    by (rule plugin_ext_rank_classes [THEN conjunct1])
  show "plugin_ext_rank n = 1 \<longleftrightarrow> endswith (lower n) ''.esp''"
    by (rule plugin_ext_rank_classes [THEN conjunct2, THEN conjunct1])
  show "plugin_ext_rank n = 2 \<longleftrightarrow> endswith (lower n) ''.esl''"
    by (rule plugin_ext_rank_classes [THEN conjunct2, THEN conjunct2, THEN conjunct1])
  show "plugin_ext_rank n = 3 \<longleftrightarrow> \<not> endswith (lower n) ''.esm''
          \<and> \<not> endswith (lower n) ''.esp'' \<and> \<not> endswith (lower n) ''.esl''"
    by (rule plugin_ext_rank_classes [THEN conjunct2, THEN conjunct2, THEN conjunct2])
next
  have f: "filter (\<lambda>n. lower (strip n) \<noteq> lower (strip plugin)) order = order"
    using new by (rule filter_new_id)
  show "insert_relative_once order plugin None position =
           merge_buckets ((partition_by_ext order)(pr := partition_by_ext order pr @ [plugin]))"
    using insert_relative_once_no_anchor [of None plugin order position] by (simp add: f pr_def)
  {
    fix a
    assume h: "pick_anchor_in_current_order order anchors = Some a \<and> plugin_ext_rank a \<noteq> pr"
    then show "insert_relative_once order plugin (Some a) position =
             merge_buckets ((partition_by_ext order)(pr := partition_by_ext order pr @ [plugin]))"
      using insert_relative_once_no_anchor [of "Some a" plugin order position] by (simp add: f pr_def)
  }
  fix a
  assume h: "pick_anchor_in_current_order order anchors = Some a \<and> plugin_ext_rank a = pr"
  then obtain ys zs where s: "order = ys @ a # zs" "\<forall>y \<in> set ys. lower y \<noteq> lower a"
    using pick_anchor_split by blast
  have st: "\<And>n. n \<in> set order \<Longrightarrow> strip n = n \<and> n \<noteq> []"
    unfolding order_def by (rule read_loadorder_file_stripped)
  have a: "strip a = a" "a \<noteq> []" using st [of a] s(1) by auto
  let ?pre = "filter (\<lambda>n. plugin_ext_rank n = pr) ys"
  let ?post = "filter (\<lambda>n. plugin_ext_rank n = pr) zs"
  have b: "partition_by_ext order pr = ?pre @ a # ?post"
    using h by (simp add: partition_by_ext_filter s(1))
  have nopre: "\<forall>y \<in> set ?pre. lower (strip y) \<noteq> lower (strip a)"
  proof
    fix y assume y: "y \<in> set ?pre"
    then have "y \<in> set order" by (simp add: s(1))
    then have "strip y = y" using st by blast
    moreover have "lower y \<noteq> lower a" using y s(2) by simp
    ultimately show "lower (strip y) \<noteq> lower (strip a)" using a by simp
  qed
  then have "a \<notin> set ?pre" by blast
  have idx: "anchor_index (partition_by_ext order pr) a = Some (length ?pre)"
    unfolding b by (rule anchor_index_first [OF nopre]) simp
  have r: "insert_relative_once order plugin (Some a) position =
             merge_buckets ((partition_by_ext order)(pr :=
               list_insert (partition_by_ext order pr)
                 (if lower position = ''before'' then length ?pre else length ?pre + 1) plugin))"
    using h a idx by (simp add: insert_relative_once_def Let_def f pr_def [symmetric])
  have "list_insert (partition_by_ext order pr)
                 (if lower position = ''before'' then length ?pre else length ?pre + 1) plugin
          = (if lower position = ''before'' then ?pre @ plugin # a # ?post
                else ?pre @ a # plugin # ?post)"
    unfolding b by (simp add: list_insert_def)
  with r b \<open>a \<notin> set ?pre\<close>
  show "\<exists>pre post. partition_by_ext order pr = pre @ a # post \<and> a \<notin> set pre \<and>
           insert_relative_once order plugin (Some a) position =
             merge_buckets ((partition_by_ext order)(pr :=
               (if lower position = ''before'' then pre @ plugin # a # post
                else pre @ a # plugin # post)))"
    by (intro exI [of _ ?pre] exI [of _ ?post]) simp
qed

theorem insert_relative_once_anchor_witness:
  "insert_relative_once (read_loadorder_file (Some (''M.esm'' @ [CHR 0x0A] @ ''A.esp'' @ [CHR 0x0A] @ ''B.esp'' @ [CHR 0x0A] @ ''C.esp'' @ [CHR 0x0A] @ ''L.esl'' @ [CHR 0x0A]))) ''X.esp'' (Some ''B.esp'') ''before''
     = [''M.esm'', ''A.esp'', ''X.esp'', ''B.esp'', ''C.esp'', ''L.esl'']
   \<and> insert_relative_once (read_loadorder_file (Some (''M.esm'' @ [CHR 0x0A] @ ''A.esp'' @ [CHR 0x0A] @ ''B.esp'' @ [CHR 0x0A] @ ''C.esp'' @ [CHR 0x0A] @ ''L.esl'' @ [CHR 0x0A]))) ''X.esp'' (Some ''B.esp'') ''after''
     = [''M.esm'', ''A.esp'', ''B.esp'', ''X.esp'', ''C.esp'', ''L.esl'']
   \<and> insert_relative_once (read_loadorder_file (Some (''M.esm'' @ [CHR 0x0A] @ ''A.esp'' @ [CHR 0x0A] @ ''B.esp'' @ [CHR 0x0A] @ ''C.esp'' @ [CHR 0x0A] @ ''L.esl'' @ [CHR 0x0A]))) ''Y.esm'' (Some ''B.esp'') ''after''
     = [''M.esm'', ''Y.esm'', ''A.esp'', ''B.esp'', ''C.esp'', ''L.esl'']
   \<and> insert_relative_once (read_loadorder_file (Some (''M.esm'' @ [CHR 0x0A] @ ''A.esp'' @ [CHR 0x0A] @ ''B.esp'' @ [CHR 0x0A] @ ''C.esp'' @ [CHR 0x0A] @ ''L.esl'' @ [CHR 0x0A]))) ''X.esp'' None ''end''
     = [''M.esm'', ''A.esp'', ''B.esp'', ''C.esp'', ''X.esp'', ''L.esl'']
   \<and> plugin_ext_rank ''Y.esm'' = 0 \<and> plugin_ext_rank ''B.esp'' = 1
   \<and> plugin_ext_rank ''L.esl'' = 2 \<and> plugin_ext_rank ''readme.txt'' = 3"
proof -
  let ?f = "Some (''M.esm'' @ [CHR 0x0A] @ ''A.esp'' @ [CHR 0x0A] @ ''B.esp'' @ [CHR 0x0A] @ ''C.esp'' @ [CHR 0x0A] @ ''L.esl'' @ [CHR 0x0A])"
  let ?o = "read_loadorder_file ?f"
  have newX: "\<forall>n \<in> set ?o. lower (strip n) \<noteq> lower (strip ''X.esp'')"
    by code_simp
  have newY: "\<forall>n \<in> set ?o. lower (strip n) \<noteq> lower (strip ''Y.esm'')"
    by code_simp
  have pick: "pick_anchor_in_current_order ?o {''b.esp''} = Some ''B.esp''"
    by code_simp
  have e_esm: "endswith (lower ''Y.esm'') ''.esm''" and e_esp: "endswith (lower ''B.esp'') ''.esp''"
    and e_espX: "endswith (lower ''X.esp'') ''.esp''" and e_esl: "endswith (lower ''L.esl'') ''.esl''"
    and e_txt: "\<not> endswith (lower ''readme.txt'') ''.esm'' \<and> \<not> endswith (lower ''readme.txt'') ''.esp''
                 \<and> \<not> endswith (lower ''readme.txt'') ''.esl''"
    by code_simp+
  note tb = insert_relative_once_anchor [where content = ?f and plugin = "''X.esp''"
      and anchors = "{''b.esp''}" and position = "''before''", OF newX]
  note ta = insert_relative_once_anchor [where content = ?f and plugin = "''X.esp''"
      and anchors = "{''b.esp''}" and position = "''after''", OF newX]
  note tc = insert_relative_once_anchor [where content = ?f and plugin = "''Y.esm''"
      and anchors = "{''b.esp''}" and position = "''after''", OF newY]
  note tn = insert_relative_once_anchor [where content = ?f and plugin = "''X.esp''"
      and anchors = "{}" and position = "''end''", OF newX]
  note cls = tb [THEN conjunct1]
  have rY: "plugin_ext_rank ''Y.esm'' = 0"
    using cls [THEN spec [where x = "''Y.esm''"], THEN conjunct1] e_esm by blast
  have rB: "plugin_ext_rank ''B.esp'' = 1"
    using cls [THEN spec [where x = "''B.esp''"], THEN conjunct2, THEN conjunct1] e_esp by blast
  have rX: "plugin_ext_rank ''X.esp'' = 1"
    using cls [THEN spec [where x = "''X.esp''"], THEN conjunct2, THEN conjunct1] e_espX by blast
  have rL: "plugin_ext_rank ''L.esl'' = 2"
    using cls [THEN spec [where x = "''L.esl''"], THEN conjunct2, THEN conjunct2, THEN conjunct1] e_esl
    by blast
  have rT: "plugin_ext_rank ''readme.txt'' = 3"
    using cls [THEN spec [where x = "''readme.txt''"], THEN conjunct2, THEN conjunct2, THEN conjunct2] e_txt
    by blast
  have same: "plugin_ext_rank ''B.esp'' = plugin_ext_rank ''X.esp''" using rB rX by simp
  have other: "plugin_ext_rank ''B.esp'' \<noteq> plugin_ext_rank ''Y.esm''" using rB rY by simp
  have bucket: "partition_by_ext ?o (plugin_ext_rank ''X.esp'') = [''A.esp'', ''B.esp'', ''C.esp'']"
    by code_simp
  from tb [THEN conjunct2, THEN conjunct1, THEN spec [where x = "''B.esp''"], THEN mp, OF conjI [OF pick same]]
  obtain pre post where
    p: "partition_by_ext ?o (plugin_ext_rank ''X.esp'') = pre @ ''B.esp'' # post" "''B.esp'' \<notin> set pre"
    and r: "insert_relative_once ?o ''X.esp'' (Some ''B.esp'') ''before'' =
             merge_buckets ((partition_by_ext ?o)(plugin_ext_rank ''X.esp'' :=
               (if lower ''before'' = ''before'' then pre @ ''X.esp'' # ''B.esp'' # post
                else pre @ ''B.esp'' # ''X.esp'' # post)))"
    by blast
  have "pre = takeWhile (\<lambda>x. x \<noteq> ''B.esp'') [''A.esp'', ''B.esp'', ''C.esp'']
          \<and> post = tl (dropWhile (\<lambda>x. x \<noteq> ''B.esp'') [''A.esp'', ''B.esp'', ''C.esp''])"
    using split_first_unique [OF p] unfolding bucket .
  then have pp: "pre = [''A.esp'']" "post = [''C.esp'']" by simp_all
  have "merge_buckets ((partition_by_ext ?o)(plugin_ext_rank ''X.esp'' :=
               (if lower ''before'' = ''before'' then [''A.esp''] @ ''X.esp'' # ''B.esp'' # [''C.esp'']
                else [''A.esp''] @ ''B.esp'' # ''X.esp'' # [''C.esp''])))
          = [''M.esm'', ''A.esp'', ''X.esp'', ''B.esp'', ''C.esp'', ''L.esl'']"
    by code_simp
  then have 1: "insert_relative_once ?o ''X.esp'' (Some ''B.esp'') ''before''
                  = [''M.esm'', ''A.esp'', ''X.esp'', ''B.esp'', ''C.esp'', ''L.esl'']"
    unfolding r pp .
  from ta [THEN conjunct2, THEN conjunct1, THEN spec [where x = "''B.esp''"], THEN mp, OF conjI [OF pick same]]
  obtain pre' post' where
    p': "partition_by_ext ?o (plugin_ext_rank ''X.esp'') = pre' @ ''B.esp'' # post'" "''B.esp'' \<notin> set pre'"
    and r': "insert_relative_once ?o ''X.esp'' (Some ''B.esp'') ''after'' =
             merge_buckets ((partition_by_ext ?o)(plugin_ext_rank ''X.esp'' :=
               (if lower ''after'' = ''before'' then pre' @ ''X.esp'' # ''B.esp'' # post'
                else pre' @ ''B.esp'' # ''X.esp'' # post')))"
    by blast
  have "pre' = takeWhile (\<lambda>x. x \<noteq> ''B.esp'') [''A.esp'', ''B.esp'', ''C.esp'']
          \<and> post' = tl (dropWhile (\<lambda>x. x \<noteq> ''B.esp'') [''A.esp'', ''B.esp'', ''C.esp''])"
    using split_first_unique [OF p'] unfolding bucket .
  then have pp': "pre' = [''A.esp'']" "post' = [''C.esp'']" by simp_all
  have "merge_buckets ((partition_by_ext ?o)(plugin_ext_rank ''X.esp'' :=
               (if lower ''after'' = ''before'' then [''A.esp''] @ ''X.esp'' # ''B.esp'' # [''C.esp'']
                else [''A.esp''] @ ''B.esp'' # ''X.esp'' # [''C.esp''])))
          = [''M.esm'', ''A.esp'', ''B.esp'', ''X.esp'', ''C.esp'', ''L.esl'']"
    by code_simp
  then have 2: "insert_relative_once ?o ''X.esp'' (Some ''B.esp'') ''after''
                  = [''M.esm'', ''A.esp'', ''B.esp'', ''X.esp'', ''C.esp'', ''L.esl'']"
    unfolding r' pp' .
  have "merge_buckets ((partition_by_ext ?o)(plugin_ext_rank ''Y.esm'' :=
            partition_by_ext ?o (plugin_ext_rank ''Y.esm'') @ [''Y.esm'']))
          = [''M.esm'', ''Y.esm'', ''A.esp'', ''B.esp'', ''C.esp'', ''L.esl'']"
    by code_simp
  then have 3: "insert_relative_once ?o ''Y.esm'' (Some ''B.esp'') ''after''
                  = [''M.esm'', ''Y.esm'', ''A.esp'', ''B.esp'', ''C.esp'', ''L.esl'']"
    using tc [THEN conjunct2, THEN conjunct2, THEN conjunct1, THEN spec [where x = "''B.esp''"], THEN mp,
              OF conjI [OF pick other]]
    by simp
  have "merge_buckets ((partition_by_ext ?o)(plugin_ext_rank ''X.esp'' :=
            partition_by_ext ?o (plugin_ext_rank ''X.esp'') @ [''X.esp'']))
          = [''M.esm'', ''A.esp'', ''B.esp'', ''C.esp'', ''X.esp'', ''L.esl'']"
    by code_simp
  then have 4: "insert_relative_once ?o ''X.esp'' None ''end''
                  = [''M.esm'', ''A.esp'', ''B.esp'', ''C.esp'', ''X.esp'', ''L.esl'']"
    using tn [THEN conjunct2, THEN conjunct2, THEN conjunct2] by simp
  show ?thesis using 1 2 3 4 rY rB rL rT by blast
qed

text \<open>
  C1. With the case-insensitive occurrences of the plugin taken out, the input is regrouped
  by rank, each rank in input order, and the plugin is put at one place inside its own
  rank's group: entries of the same rank keep their relative order, and an input that is
  already rank-partitioned is left as it was around the plugin. An input that is not
  rank-partitioned is reordered: below, \<open>b.esm\<close> moves in front of \<open>a.esp\<close>.
\<close>

theorem insert_relative_once_reorders:
  "insert_relative_once [''a.esp'', ''b.esm''] ''c.esl'' None ''end'' = [''b.esm'', ''a.esp'', ''c.esl'']
   \<and> filter (\<lambda>n. n \<noteq> ''c.esl'') (insert_relative_once [''a.esp'', ''b.esm''] ''c.esl'' None ''end'')
       \<noteq> [''a.esp'', ''b.esm'']"
  by code_simp

theorem insert_relative_once_keeps_order:
  fixes current_order :: "string list" and plugin position :: string and anchor :: "string option"
  defines "order \<equiv> filter (\<lambda>n. lower (strip n) \<noteq> lower (strip plugin)) current_order"
  defines "grouped \<equiv> merge_buckets (partition_by_ext order)"
  shows
    "(\<exists>k \<le> length grouped.
        insert_relative_once current_order plugin anchor position
          = take k grouped @ plugin # drop k grouped
        \<and> (\<forall>n \<in> set (take k grouped). plugin_ext_rank n \<le> plugin_ext_rank plugin)
        \<and> (\<forall>n \<in> set (drop k grouped). plugin_ext_rank plugin \<le> plugin_ext_rank n))
     \<and> (\<forall>r. filter (\<lambda>n. plugin_ext_rank n = r) grouped = filter (\<lambda>n. plugin_ext_rank n = r) order)
     \<and> (sorted (map plugin_ext_rank current_order) \<longrightarrow> grouped = order)"
proof (intro conjI allI impI)
  obtain j where j: "j \<le> length (partition_by_ext order (plugin_ext_rank plugin))"
    and r: "insert_relative_once current_order plugin anchor position =
       merge_buckets ((partition_by_ext order)
         (plugin_ext_rank plugin :=
            take j (partition_by_ext order (plugin_ext_rank plugin))
            @ plugin # drop j (partition_by_ext order (plugin_ext_rank plugin))))"
    unfolding order_def using insert_relative_once_shape by blast
  show "\<exists>k \<le> length grouped.
        insert_relative_once current_order plugin anchor position
          = take k grouped @ plugin # drop k grouped
        \<and> (\<forall>n \<in> set (take k grouped). plugin_ext_rank n \<le> plugin_ext_rank plugin)
        \<and> (\<forall>n \<in> set (drop k grouped). plugin_ext_rank plugin \<le> plugin_ext_rank n)"
    unfolding r grouped_def by (rule splice_into_bucket [OF j])
next
  fix r
  show "filter (\<lambda>n. plugin_ext_rank n = r) grouped = filter (\<lambda>n. plugin_ext_rank n = r) order"
    unfolding grouped_def by (rule filter_rank_merge_partition)
next
  assume "sorted (map plugin_ext_rank current_order)"
  then have "sorted (map plugin_ext_rank order)"
    unfolding order_def by (rule sorted_filter)
  then show "grouped = order"
    unfolding grouped_def merge_partition_filter by (rule sorted_rank_partition)
qed

theorem insert_relative_once_keeps_order_witness:
  "sorted (map plugin_ext_rank [''A.esm'', ''B.esp'', ''x.esp'', ''C.esl''])
   \<and> merge_buckets (partition_by_ext
         (filter (\<lambda>n. lower (strip n) \<noteq> lower (strip ''X.esp'')) [''A.esm'', ''B.esp'', ''x.esp'', ''C.esl'']))
       = filter (\<lambda>n. lower (strip n) \<noteq> lower (strip ''X.esp'')) [''A.esm'', ''B.esp'', ''x.esp'', ''C.esl'']
   \<and> insert_relative_once [''A.esm'', ''B.esp'', ''x.esp'', ''C.esl''] ''X.esp'' (Some ''B.esp'') ''after''
       = [''A.esm'', ''B.esp'', ''X.esp'', ''C.esl'']"
proof -
  have s: "sorted (map plugin_ext_rank [''A.esm'', ''B.esp'', ''x.esp'', ''C.esl''])"
    by code_simp
  have v: "insert_relative_once [''A.esm'', ''B.esp'', ''x.esp'', ''C.esl''] ''X.esp'' (Some ''B.esp'') ''after''
       = [''A.esm'', ''B.esp'', ''X.esp'', ''C.esl'']"
    by code_simp
  note t = insert_relative_once_keeps_order [where current_order = "[''A.esm'', ''B.esp'', ''x.esp'', ''C.esl'']"
      and plugin = "''X.esp''" and anchor = "Some ''B.esp''" and position = "''after''"]
  from t [THEN conjunct2, THEN conjunct2, THEN mp, OF s] s v show ?thesis by blast
qed

section \<open>Write failures\<close>

lemma atomic_write_result:
  "atomic_write faults fs p t =
     (if faults (Mkdir_parent (p @ ''.tmp'')) then (Inl (OSError (Mkdir_parent (p @ ''.tmp''))), fs)
      else if faults (Write_text (p @ ''.tmp'')) then (Inl (OSError (Write_text (p @ ''.tmp''))), fs)
      else if faults (Replace (p @ ''.tmp'') p) then
        (Inl (OSError (Replace (p @ ''.tmp'') p)),
         if faults (Unlink (p @ ''.tmp'')) then fs(p @ ''.tmp'' \<mapsto> t) else fs(p @ ''.tmp'' := None))
      else (Inr (), (fs(p \<mapsto> t))(p @ ''.tmp'' := None)))"
  by (auto simp: atomic_write_def files_write_text_def fs_mkdir_parent_def fs_write_text_def
      fs_replace_def fs_unlink_def Let_def fun_upd_twist)

text \<open>
  C8. The writers that go through \<open>atomic_write\<close> (load order, activation list, group
  file) return the error of the first step that fails: creating the directory, writing the
  temporary file, or the rename. After a failed rename the target is as it was, the
  temporary file is gone when \<open>unlink\<close> succeeds, and the rename's error is returned whether
  \<open>unlink\<close> succeeds or not. None of them returns normally unless the file holds the new
  text: the names each followed by a newline for the load order; the lines given, or the
  default header when there are none, with a newline added when the last line lacks one,
  for the activation list; the joined output lines for the group file.
  \<open>write_modlist\<close> is different: it returns normally when its write failed.
\<close>

theorem write_modlist_reports_success:
  "fst (write_modlist (\<lambda>op. op = Write_text ''modlist.txt'') Map.empty ''modlist.txt'' [''+a'']) = Inr ()
   \<and> snd (write_modlist (\<lambda>op. op = Write_text ''modlist.txt'') Map.empty ''modlist.txt'' [''+a''])
         ''modlist.txt'' = None
   \<and> fst (apply_mod_sets (\<lambda>op. op = Write_text ''modlist.txt'') Map.empty ''modlist.txt'' {''a''} {})
       = Inr Applied
   \<and> snd (apply_mod_sets (\<lambda>op. op = Write_text ''modlist.txt'') Map.empty ''modlist.txt'' {''a''} {})
         ''modlist.txt'' = None"
  by code_simp

theorem atomic_write_raises:
  "(fst (atomic_write faults fs p t) = Inr () \<longrightarrow> snd (atomic_write faults fs p t) p = Some t)
   \<and> (faults (Mkdir_parent (p @ ''.tmp'')) \<or> faults (Write_text (p @ ''.tmp'')) \<or> faults (Replace (p @ ''.tmp'') p)
        \<longrightarrow> (\<exists>e. fst (atomic_write faults fs p t) = Inl e) \<and> snd (atomic_write faults fs p t) p = fs p)
   \<and> (\<not> faults (Mkdir_parent (p @ ''.tmp'')) \<and> \<not> faults (Write_text (p @ ''.tmp'')) \<and> faults (Replace (p @ ''.tmp'') p)
        \<longrightarrow> fst (atomic_write faults fs p t) = Inl (OSError (Replace (p @ ''.tmp'') p))
            \<and> (\<not> faults (Unlink (p @ ''.tmp'')) \<longrightarrow> snd (atomic_write faults fs p t) (p @ ''.tmp'') = None))
   \<and> (fst (write_loadorder_file faults fs p order) = Inr ()
        \<longrightarrow> snd (write_loadorder_file faults fs p order) p = Some (concat (map (\<lambda>n. n @ [CHR 0x0A]) order)))
   \<and> (fst (write_plugins_file default_header faults fs p lines) = Inr ()
        \<longrightarrow> snd (write_plugins_file default_header faults fs p lines) p
              = Some (concat (if lines = [] then default_header else lines)
                      @ (if (if lines = [] then default_header else lines) \<noteq> []
                            \<and> \<not> endswith (last (if lines = [] then default_header else lines)) [CHR 0x0A]
                         then [CHR 0x0A] else [])))
   \<and> (fst (write_plugingroups_file faults fs p ordered_plugins mapping header others) = Inr ()
        \<longrightarrow> snd (write_plugingroups_file faults fs p ordered_plugins mapping header others) p
              = Some (concat (plugingroups_out ordered_plugins mapping header others)))
   \<and> (fst (write_loadorder_file faults fs p order) \<noteq> Inr ()
        \<longrightarrow> snd (write_loadorder_file faults fs p order) p = fs p)
   \<and> (fst (write_plugins_file default_header faults fs p lines) \<noteq> Inr ()
        \<longrightarrow> snd (write_plugins_file default_header faults fs p lines) p = fs p)
   \<and> (fst (write_plugingroups_file faults fs p ordered_plugins mapping header others) \<noteq> Inr ()
        \<longrightarrow> snd (write_plugingroups_file faults fs p ordered_plugins mapping header others) p = fs p)
   \<and> (faults (Mkdir_parent p) \<or> faults (Mkdir_parent (p @ ''.tmp'')) \<or> faults (Write_text (p @ ''.tmp''))
          \<or> faults (Replace (p @ ''.tmp'') p)
        \<longrightarrow> (\<exists>e. fst (write_loadorder_file faults fs p order) = Inl e)
            \<and> (\<exists>e. fst (write_plugins_file default_header faults fs p lines) = Inl e)
            \<and> (\<exists>e. fst (write_plugingroups_file faults fs p ordered_plugins mapping header others) = Inl e))"
proof (intro conjI)
  show "faults (Mkdir_parent p) \<or> faults (Mkdir_parent (p @ ''.tmp'')) \<or> faults (Write_text (p @ ''.tmp''))
          \<or> faults (Replace (p @ ''.tmp'') p)
        \<longrightarrow> (\<exists>e. fst (write_loadorder_file faults fs p order) = Inl e)
            \<and> (\<exists>e. fst (write_plugins_file default_header faults fs p lines) = Inl e)
            \<and> (\<exists>e. fst (write_plugingroups_file faults fs p ordered_plugins mapping header others) = Inl e)"
    by (simp add: write_loadorder_file_def write_plugins_file_def write_plugingroups_file_def
        fs_mkdir_parent_def atomic_write_result Let_def)
  show "fst (atomic_write faults fs p t) = Inr () \<longrightarrow> snd (atomic_write faults fs p t) p = Some t"
    by (simp add: atomic_write_result)
  show "faults (Mkdir_parent (p @ ''.tmp'')) \<or> faults (Write_text (p @ ''.tmp'')) \<or> faults (Replace (p @ ''.tmp'') p)
        \<longrightarrow> (\<exists>e. fst (atomic_write faults fs p t) = Inl e) \<and> snd (atomic_write faults fs p t) p = fs p"
    by (simp add: atomic_write_result)
  show "\<not> faults (Mkdir_parent (p @ ''.tmp'')) \<and> \<not> faults (Write_text (p @ ''.tmp'')) \<and> faults (Replace (p @ ''.tmp'') p)
        \<longrightarrow> fst (atomic_write faults fs p t) = Inl (OSError (Replace (p @ ''.tmp'') p))
            \<and> (\<not> faults (Unlink (p @ ''.tmp'')) \<longrightarrow> snd (atomic_write faults fs p t) (p @ ''.tmp'') = None)"
    by (simp add: atomic_write_result)
  show "fst (write_loadorder_file faults fs p order) = Inr ()
        \<longrightarrow> snd (write_loadorder_file faults fs p order) p = Some (concat (map (\<lambda>n. n @ [CHR 0x0A]) order))"
    by (simp add: write_loadorder_file_def fs_mkdir_parent_def atomic_write_result Let_def)
  show "fst (write_plugins_file default_header faults fs p lines) = Inr ()
        \<longrightarrow> snd (write_plugins_file default_header faults fs p lines) p
              = Some (concat (if lines = [] then default_header else lines)
                      @ (if (if lines = [] then default_header else lines) \<noteq> []
                            \<and> \<not> endswith (last (if lines = [] then default_header else lines)) [CHR 0x0A]
                         then [CHR 0x0A] else []))"
    by (simp add: write_plugins_file_def fs_mkdir_parent_def atomic_write_result Let_def)
  show "fst (write_plugingroups_file faults fs p ordered_plugins mapping header others) = Inr ()
        \<longrightarrow> snd (write_plugingroups_file faults fs p ordered_plugins mapping header others) p
              = Some (concat (plugingroups_out ordered_plugins mapping header others))"
    by (simp add: write_plugingroups_file_def fs_mkdir_parent_def atomic_write_result)
  show "fst (write_loadorder_file faults fs p order) \<noteq> Inr ()
        \<longrightarrow> snd (write_loadorder_file faults fs p order) p = fs p"
    by (simp add: write_loadorder_file_def fs_mkdir_parent_def atomic_write_result Let_def)
  show "fst (write_plugins_file default_header faults fs p lines) \<noteq> Inr ()
        \<longrightarrow> snd (write_plugins_file default_header faults fs p lines) p = fs p"
    by (simp add: write_plugins_file_def fs_mkdir_parent_def atomic_write_result Let_def)
  show "fst (write_plugingroups_file faults fs p ordered_plugins mapping header others) \<noteq> Inr ()
        \<longrightarrow> snd (write_plugingroups_file faults fs p ordered_plugins mapping header others) p = fs p"
    by (simp add: write_plugingroups_file_def fs_mkdir_parent_def atomic_write_result)
qed

theorem atomic_write_raises_witness:
  "fst (atomic_write (\<lambda>op. op = Replace ''loadorder.txt.tmp'' ''loadorder.txt'')
          [''loadorder.txt'' \<mapsto> ''old''] ''loadorder.txt'' ''new'')
     = Inl (OSError (Replace ''loadorder.txt.tmp'' ''loadorder.txt''))
   \<and> snd (atomic_write (\<lambda>op. op = Replace ''loadorder.txt.tmp'' ''loadorder.txt'')
          [''loadorder.txt'' \<mapsto> ''old''] ''loadorder.txt'' ''new'') ''loadorder.txt.tmp'' = None
   \<and> snd (atomic_write (\<lambda>op. op = Replace ''loadorder.txt.tmp'' ''loadorder.txt'')
          [''loadorder.txt'' \<mapsto> ''old''] ''loadorder.txt'' ''new'') ''loadorder.txt'' = Some ''old''
   \<and> snd (write_plugins_file [''# h'' @ [CHR 0x0A]] (\<lambda>op. False) Map.empty ''plugins.txt''
          [''*a.esp'' @ [CHR 0x0A], ''b.esp'']) ''plugins.txt''
     = Some (''*a.esp'' @ [CHR 0x0A] @ ''b.esp'' @ [CHR 0x0A])
   \<and> snd (write_plugins_file [''# h'' @ [CHR 0x0A]] (\<lambda>op. False) Map.empty ''plugins.txt'' [])
          ''plugins.txt''
     = Some (''# h'' @ [CHR 0x0A])
   \<and> (\<exists>e. fst (write_plugins_file [''# h'' @ [CHR 0x0A]] (\<lambda>op. op = Write_text ''plugins.txt.tmp'')
          Map.empty ''plugins.txt'' [''*a.esp'' @ [CHR 0x0A]]) = Inl e)"
proof -
  let ?F = "\<lambda>op. op = Replace ''loadorder.txt.tmp'' ''loadorder.txt''"
  note t = atomic_write_raises [where faults = ?F and fs = "[''loadorder.txt'' \<mapsto> ''old'']"
      and p = "''loadorder.txt''" and t = "''new''"]
  have h: "\<not> ?F (Mkdir_parent (''loadorder.txt'' @ ''.tmp'')) \<and> \<not> ?F (Write_text (''loadorder.txt'' @ ''.tmp''))
            \<and> ?F (Replace (''loadorder.txt'' @ ''.tmp'') ''loadorder.txt'')"
    by simp
  have u: "\<not> ?F (Unlink (''loadorder.txt'' @ ''.tmp''))" by simp
  have a: "fst (atomic_write ?F [''loadorder.txt'' \<mapsto> ''old''] ''loadorder.txt'' ''new'')
             = Inl (OSError (Replace (''loadorder.txt'' @ ''.tmp'') ''loadorder.txt''))"
    using t [THEN conjunct2, THEN conjunct2, THEN conjunct1, THEN mp, OF h] by (rule conjunct1)
  have b: "snd (atomic_write ?F [''loadorder.txt'' \<mapsto> ''old''] ''loadorder.txt'' ''new'')
             (''loadorder.txt'' @ ''.tmp'') = None"
    using t [THEN conjunct2, THEN conjunct2, THEN conjunct1, THEN mp, OF h, THEN conjunct2, THEN mp, OF u] .
  have c: "snd (atomic_write ?F [''loadorder.txt'' \<mapsto> ''old''] ''loadorder.txt'' ''new'') ''loadorder.txt''
             = [''loadorder.txt'' \<mapsto> ''old''] ''loadorder.txt''"
    using t [THEN conjunct2, THEN conjunct1, THEN mp, THEN conjunct2] h by blast
  let ?D = "[''# h'' @ [CHR 0x0A]]"
  let ?L = "[''*a.esp'' @ [CHR 0x0A], ''b.esp'']"
  note w1 = atomic_write_raises [where faults = "\<lambda>op. False" and fs = Map.empty and p = "''plugins.txt''"
      and default_header = ?D and lines = ?L]
  note w2 = atomic_write_raises [where faults = "\<lambda>op. False" and fs = Map.empty and p = "''plugins.txt''"
      and default_header = ?D and lines = "[]"]
  note w3 = atomic_write_raises [where faults = "\<lambda>op. op = Write_text ''plugins.txt.tmp''" and fs = Map.empty
      and p = "''plugins.txt''" and default_header = ?D and lines = "[''*a.esp'' @ [CHR 0x0A]]"]
  have ok1: "fst (write_plugins_file ?D (\<lambda>op. False) Map.empty ''plugins.txt'' ?L) = Inr ()"
    by code_simp
  have ok2: "fst (write_plugins_file ?D (\<lambda>op. False) Map.empty ''plugins.txt'' []) = Inr ()"
    by code_simp
  have d: "snd (write_plugins_file ?D (\<lambda>op. False) Map.empty ''plugins.txt'' ?L) ''plugins.txt''
             = Some (''*a.esp'' @ [CHR 0x0A] @ ''b.esp'' @ [CHR 0x0A])"
    using w1 [THEN conjunct2, THEN conjunct2, THEN conjunct2, THEN conjunct2, THEN conjunct1, THEN mp, OF ok1]
    by (simp add: endswith_single)
  have e: "snd (write_plugins_file ?D (\<lambda>op. False) Map.empty ''plugins.txt'' []) ''plugins.txt''
             = Some (''# h'' @ [CHR 0x0A])"
    using w2 [THEN conjunct2, THEN conjunct2, THEN conjunct2, THEN conjunct2, THEN conjunct1, THEN mp, OF ok2]
    by (simp add: endswith_single)
  have fl: "(\<lambda>op. op = Write_text ''plugins.txt.tmp'') (Mkdir_parent ''plugins.txt'')
          \<or> (\<lambda>op. op = Write_text ''plugins.txt.tmp'') (Mkdir_parent (''plugins.txt'' @ ''.tmp''))
          \<or> (\<lambda>op. op = Write_text ''plugins.txt.tmp'') (Write_text (''plugins.txt'' @ ''.tmp''))
          \<or> (\<lambda>op. op = Write_text ''plugins.txt.tmp'') (Replace (''plugins.txt'' @ ''.tmp'') ''plugins.txt'')"
    by simp
  have f: "\<exists>e. fst (write_plugins_file ?D (\<lambda>op. op = Write_text ''plugins.txt.tmp'')
          Map.empty ''plugins.txt'' [''*a.esp'' @ [CHR 0x0A]]) = Inl e"
    using w3 [THEN conjunct2, THEN conjunct2, THEN conjunct2, THEN conjunct2, THEN conjunct2,
              THEN conjunct2, THEN conjunct2, THEN conjunct2, THEN conjunct2, THEN mp, OF fl]
    by blast
  show ?thesis using a b c d e f by simp
qed

section \<open>Mod list and activation list: repeated mutation\<close>

lemma isspace_LF [simp]: "isspace (CHR 0x0A)"
  by (simp add: isspace_def)

lemma not_isspace_signs [simp]:
  "\<not> isspace CHR ''+''" "\<not> isspace CHR ''-''" "\<not> isspace CHR ''*''" "\<not> isspace CHR ''#''"
  by (simp_all add: isspace_def)

lemma ensure_nl_idem [simp]: "ensure_nl (ensure_nl ln) = ensure_nl ln"
  by (simp add: ensure_nl_def endswith_single)

lemma ensure_nl_ended: "s \<noteq> [] \<Longrightarrow> last s = CHR 0x0A \<Longrightarrow> ensure_nl s = s"
  by (simp add: ensure_nl_def endswith_single)

lemma strip_ensure_nl [simp]: "strip (ensure_nl ln) = strip ln"
  by (simp add: ensure_nl_def strip_append_spaces)

lemma strip_sign_entry:
  assumes "strip m = m" and "\<not> isspace c"
  shows "strip (c # m @ [CHR 0x0A]) = c # m"
proof -
  have "dropWhile isspace (rev [CHR 0x0A] @ rev m) = dropWhile isspace (rev m)"
    by (rule dropWhile_all_append) simp
  then have "rev (dropWhile isspace (rev (m @ [CHR 0x0A]))) = rev (dropWhile isspace (rev m))"
    by simp
  also have "\<dots> = m" using assms(1) by (rule strip_stripped_rstrip)
  finally show ?thesis using assms(2) by (simp add: strip_Cons_nonspace)
qed

lemma startswith_Cons [simp]: "startswith (c # s) [d] \<longleftrightarrow> c = d"
  by (simp add: startswith_def)

lemma startswith_Nil [simp]: "\<not> startswith [] [d]"
  by (simp add: startswith_def)

lemma positions_Nil_iff:
  "map fst (filter (\<lambda>(i, ln). P ln) (enumerate n xs)) = [] \<longleftrightarrow> (\<forall>x \<in> set xs. \<not> P x)"
  by (induction xs arbitrary: n) auto

lemma positions_single:
  "\<forall>y \<in> set pre. \<not> P y \<Longrightarrow> P x \<Longrightarrow> \<forall>y \<in> set post. \<not> P y \<Longrightarrow>
     map fst (filter (\<lambda>(i, ln). P ln) (enumerate n (pre @ x # post))) = [n + length pre]"
proof (induction pre arbitrary: n)
  case Nil
  then show ?case using positions_Nil_iff [of P "Suc n" post] by simp
next
  case (Cons y pre)
  then show ?case by simp
qed

lemma modlist_line_hits_ensure_nl [simp]:
  "modlist_line_hits m (ensure_nl ln) = modlist_line_hits m ln"
  by (simp add: modlist_line_hits_def)

lemma modlist_line_hits_names: "modlist_line_hits m ln \<Longrightarrow> names_mod (strip ln) m"
  by (simp add: modlist_line_hits_def Let_def split: if_splits)

lemma set_mod_enabled_none:
  assumes "\<forall>ln \<in> set lines. \<not> modlist_line_hits m ln"
  shows "set_mod_enabled_in_lines lines m enable
           = map ensure_nl lines @ [(if enable then ''+'' else ''-'') @ m @ [CHR 0x0A]]"
proof -
  have "\<forall>ln \<in> set (map ensure_nl lines). \<not> modlist_line_hits m ln" using assms by simp
  then have "map fst (filter (\<lambda>(i, ln). modlist_line_hits m ln) (enumerate 0 (map ensure_nl lines))) = []"
    by (simp only: positions_Nil_iff)
  then show ?thesis by (simp add: set_mod_enabled_in_lines_def Let_def)
qed

lemma set_mod_enabled_some:
  assumes "\<exists>ln \<in> set lines. modlist_line_hits m ln"
  shows "\<exists>k \<le> length (filter (\<lambda>ln. \<not> names_mod (strip ln) m) (map ensure_nl lines)).
           set_mod_enabled_in_lines lines m enable
             = take k (filter (\<lambda>ln. \<not> names_mod (strip ln) m) (map ensure_nl lines))
               @ ((if enable then ''+'' else ''-'') @ m @ [CHR 0x0A])
               # drop k (filter (\<lambda>ln. \<not> names_mod (strip ln) m) (map ensure_nl lines))"
proof -
  let ?F = "filter (\<lambda>ln. \<not> names_mod (strip ln) m) (map ensure_nl lines)"
  let ?pos = "map fst (filter (\<lambda>(i, ln). modlist_line_hits m ln) (enumerate 0 (map ensure_nl lines)))"
  have "\<not> (\<forall>ln \<in> set (map ensure_nl lines). \<not> modlist_line_hits m ln)" using assms by simp
  then have ne: "?pos \<noteq> []"
    using positions_Nil_iff [of "modlist_line_hits m" 0 "map ensure_nl lines"] by blast
  have "set_mod_enabled_in_lines lines m enable
          = list_insert ?F (min (last ?pos) (length ?F)) ((if enable then ''+'' else ''-'') @ m @ [CHR 0x0A])"
    using ne by (simp add: set_mod_enabled_in_lines_def Let_def)
  then show ?thesis
    by (intro exI [of _ "min (last ?pos) (length ?F)"]) (simp add: list_insert_def)
qed

lemma entry_names_mod:
  assumes "strip m = m" and "m \<noteq> []"
  shows "names_mod (strip ((if enable then ''+'' else ''-'') @ m @ [CHR 0x0A])) m"
    and "modlist_line_hits m ((if enable then ''+'' else ''-'') @ m @ [CHR 0x0A])"
proof -
  have len: "2 \<le> length (c # m)" for c :: char
    using assms(2) by (cases m) simp_all
  have p: "strip (CHR ''+'' # m @ [CHR 0x0A]) = CHR ''+'' # m"
    using assms(1) by (rule strip_sign_entry) simp
  have q: "strip (CHR ''-'' # m @ [CHR 0x0A]) = CHR ''-'' # m"
    using assms(1) by (rule strip_sign_entry) simp
  have np: "names_mod (CHR ''+'' # m) m" and nq: "names_mod (CHR ''-'' # m) m"
    using len assms(1) by (simp_all add: names_mod_def)
  show "names_mod (strip ((if enable then ''+'' else ''-'') @ m @ [CHR 0x0A])) m"
    using np nq by (simp add: p q)
  show "modlist_line_hits m ((if enable then ''+'' else ''-'') @ m @ [CHR 0x0A])"
    using np nq by (simp add: modlist_line_hits_def p q)
qed

lemma set_mod_enabled_eval:
  assumes "map ensure_nl L = L"
      and "map fst (filter (\<lambda>(i, ln). modlist_line_hits m ln) (enumerate 0 L)) = [k]"
      and "filter (\<lambda>ln. \<not> names_mod (strip ln) m) L = F"
  shows "set_mod_enabled_in_lines L m enable
           = list_insert F (min k (length F)) ((if enable then ''+'' else ''-'') @ m @ [CHR 0x0A])"
  unfolding set_mod_enabled_in_lines_def Let_def assms by simp

lemma set_mod_enabled_fixpoint:
  assumes st: "strip m = m" and ne: "m \<noteq> []"
      and e: "e = (if enable then ''+'' else ''-'') @ m @ [CHR 0x0A]"
      and npre: "map ensure_nl pre = pre" and npost: "map ensure_nl post = post"
      and nn: "\<forall>y \<in> set pre \<union> set post. \<not> names_mod (strip y) m"
  shows "set_mod_enabled_in_lines (pre @ e # post) m enable = pre @ e # post"
proof -
  have en: "names_mod (strip e) m" and eh: "modlist_line_hits m e"
    using entry_names_mod [OF st ne] e by auto
  have ee: "ensure_nl e = e" unfolding e by (rule ensure_nl_ended) simp_all
  have n2: "map ensure_nl (pre @ e # post) = pre @ e # post"
    using npre npost ee by simp
  have nh: "\<forall>y \<in> set pre \<union> set post. \<not> modlist_line_hits m y"
    using nn modlist_line_hits_names by blast
  have pos: "map fst (filter (\<lambda>(i, ln). modlist_line_hits m ln) (enumerate 0 (pre @ e # post)))
               = [0 + length pre]"
    using nh eh by (intro positions_single) auto
  have fpre: "filter (\<lambda>ln. \<not> names_mod (strip ln) m) pre = pre"
    using nn by (intro filter_True) blast
  have fpost: "filter (\<lambda>ln. \<not> names_mod (strip ln) m) post = post"
    using nn by (intro filter_True) blast
  have F: "filter (\<lambda>ln. \<not> names_mod (strip ln) m) (pre @ e # post) = pre @ post"
    using fpre fpost en by simp
  have "set_mod_enabled_in_lines (pre @ e # post) m enable
          = list_insert (pre @ post) (min (0 + length pre) (length (pre @ post)))
              ((if enable then ''+'' else ''-'') @ m @ [CHR 0x0A])"
    using n2 pos F by (rule set_mod_enabled_eval)
  also have "\<dots> = list_insert (pre @ post) (length pre) e"
    unfolding e by simp
  finally show ?thesis by (simp add: list_insert_def)
qed

lemma set_mod_enabled_twice:
  assumes st: "strip m = m" and ne: "m \<noteq> []"
      and cm: "(\<exists>ln \<in> set lines. names_mod (strip ln) m) \<longrightarrow> (\<exists>ln \<in> set lines. modlist_line_hits m ln)"
  shows "set_mod_enabled_in_lines (set_mod_enabled_in_lines lines m enable) m enable
           = set_mod_enabled_in_lines lines m enable"
proof -
  define e where "e = (if enable then ''+'' else ''-'') @ m @ [CHR 0x0A]"
  define N where "N = map ensure_nl lines"
  define F where "F = filter (\<lambda>ln. \<not> names_mod (strip ln) m) N"
  have Nn: "map ensure_nl N = N" by (simp add: N_def)
  have Fe: "map ensure_nl F = F"
  proof (rule map_idI)
    fix x assume "x \<in> set F"
    then obtain l where "x = ensure_nl l" by (auto simp: F_def N_def)
    then show "ensure_nl x = x" by simp
  qed
  show ?thesis
  proof (cases "\<exists>ln \<in> set lines. modlist_line_hits m ln")
    case False
    then have none: "\<forall>ln \<in> set lines. \<not> names_mod (strip ln) m" using cm by blast
    have r1: "set_mod_enabled_in_lines lines m enable = N @ e # []"
      using False set_mod_enabled_none [of lines m enable] by (simp add: N_def e_def)
    have "\<forall>y \<in> set N \<union> set []. \<not> names_mod (strip y) m" using none by (simp add: N_def)
    then have "set_mod_enabled_in_lines (N @ e # []) m enable = N @ e # []"
      using st ne e_def Nn by (intro set_mod_enabled_fixpoint) simp_all
    then show ?thesis by (simp only: r1)
  next
    case True
    then obtain k where k: "k \<le> length F"
      and r1: "set_mod_enabled_in_lines lines m enable = take k F @ e # drop k F"
      using set_mod_enabled_some [of lines m enable] unfolding F_def N_def e_def by blast
    have Fn: "\<forall>y \<in> set F. \<not> names_mod (strip y) m" by (simp add: F_def)
    have a: "map ensure_nl (take k F) = take k F"
      using Fe by (metis take_map)
    have b: "map ensure_nl (drop k F) = drop k F"
      using Fe by (metis drop_map)
    have c: "\<forall>y \<in> set (take k F) \<union> set (drop k F). \<not> names_mod (strip y) m"
      using Fn by (auto dest: in_set_takeD in_set_dropD)
    have "set_mod_enabled_in_lines (take k F @ e # drop k F) m enable = take k F @ e # drop k F"
      using st ne e_def a b c by (rule set_mod_enabled_fixpoint)
    then show ?thesis by (simp only: r1)
  qed
qed


lemma last_hit_exists:
  "\<exists>x \<in> set xs. P x \<Longrightarrow>
     \<exists>k < length xs. P (xs ! k) \<and> (\<forall>j. k < j \<and> j < length xs \<longrightarrow> \<not> P (xs ! j))"
proof (induction xs rule: rev_induct)
  case Nil
  then show ?case by simp
next
  case (snoc x xs)
  show ?case
  proof (cases "P x")
    case True
    then show ?thesis by (intro exI [of _ "length xs"]) auto
  next
    case False
    with snoc.prems have "\<exists>y \<in> set xs. P y" by auto
    then obtain k where k: "k < length xs" "P (xs ! k)"
        "\<forall>j. k < j \<and> j < length xs \<longrightarrow> \<not> P (xs ! j)"
      using snoc.IH by blast
    have "\<forall>j. k < j \<and> j < length (xs @ [x]) \<longrightarrow> \<not> P ((xs @ [x]) ! j)"
    proof (intro allI impI)
      fix j assume j: "k < j \<and> j < length (xs @ [x])"
      show "\<not> P ((xs @ [x]) ! j)"
      proof (cases "j < length xs")
        case True
        then show ?thesis using k(3) j by (simp add: nth_append)
      next
        case False
        then have "j = length xs" using j by simp
        then show ?thesis using \<open>\<not> P x\<close> by simp
      qed
    qed
    then show ?thesis using k by (intro exI [of _ k]) (simp add: nth_append)
  qed
qed

lemma set_plugin_enabled_update:
  assumes "k < length lines" and "plugins_line_hits (lower (strip plugin)) (lines ! k)"
      and "\<forall>j. k < j \<and> j < length lines \<longrightarrow> \<not> plugins_line_hits (lower (strip plugin)) (lines ! j)"
  shows "fst (set_plugin_enabled_in_plugins_lines lines plugin enable)
           = lines[k := plugins_entry (strip plugin) enable]"
proof -
  have "fold (\<lambda>(i, ln) a. if plugins_line_hits (lower (strip plugin)) ln then int i else a)
               (enumerate 0 lines) (- 1) = int k"
    using last_idx_fold_last [of k lines "plugins_line_hits (lower (strip plugin))" 0 "- 1"] assms
    by simp
  then show ?thesis
    by (simp add: set_plugin_enabled_in_plugins_lines_def Let_def)
qed

lemma set_plugin_enabled_append:
  assumes "\<forall>ln \<in> set lines. \<not> plugins_line_hits (lower (strip plugin)) ln"
  shows "fst (set_plugin_enabled_in_plugins_lines lines plugin enable)
           = lines @ [plugins_entry (strip plugin) enable]"
proof -
  have "fold (\<lambda>(i, ln) a. if plugins_line_hits (lower (strip plugin)) ln then int i else a)
               (enumerate 0 lines) (- 1) = - 1"
    using assms by (rule last_idx_fold_none)
  then show ?thesis
    by (simp add: set_plugin_enabled_in_plugins_lines_def Let_def)
qed

lemma plugins_entry_hits:
  assumes "enable \<or> (strip plugin \<noteq> [] \<and> \<not> startswith (strip plugin) ''#''
                       \<and> \<not> startswith (strip plugin) ''*'')"
  shows "plugins_line_hits (lower (strip plugin)) (plugins_entry (strip plugin) enable)"
proof (cases enable)
  case True
  have "strip (CHR ''*'' # strip plugin @ [CHR 0x0A]) = CHR ''*'' # strip plugin"
    by (rule strip_sign_entry) simp_all
  then show ?thesis using True
    by (simp add: plugins_line_hits_def plugins_entry_def)
next
  case False
  have "strip (strip plugin @ [CHR 0x0A]) = strip plugin"
    using strip_append_spaces [of "[CHR 0x0A]" "strip plugin"] by simp
  then show ?thesis using False assms
    by (simp add: plugins_line_hits_def plugins_entry_def)
qed

lemma set_plugin_enabled_twice:
  assumes "enable \<or> (strip plugin \<noteq> [] \<and> \<not> startswith (strip plugin) ''#''
                       \<and> \<not> startswith (strip plugin) ''*'')"
  shows "fst (set_plugin_enabled_in_plugins_lines
                (fst (set_plugin_enabled_in_plugins_lines lines plugin enable)) plugin enable)
           = fst (set_plugin_enabled_in_plugins_lines lines plugin enable)"
proof -
  define e where "e = plugins_entry (strip plugin) enable"
  define P where "P = plugins_line_hits (lower (strip plugin))"
  have eh: "P e" unfolding P_def e_def using assms by (rule plugins_entry_hits)
  show ?thesis
  proof (cases "\<exists>ln \<in> set lines. P ln")
    case False
    then have r1: "fst (set_plugin_enabled_in_plugins_lines lines plugin enable) = lines @ [e]"
      unfolding P_def e_def by (intro set_plugin_enabled_append) blast
    have "fst (set_plugin_enabled_in_plugins_lines (lines @ [e]) plugin enable)
            = (lines @ [e])[length lines := plugins_entry (strip plugin) enable]"
      using eh unfolding P_def by (intro set_plugin_enabled_update) auto
    then show ?thesis unfolding r1 by (simp add: e_def)
  next
    case True
    then obtain k where k: "k < length lines" "P (lines ! k)"
        "\<forall>j. k < j \<and> j < length lines \<longrightarrow> \<not> P (lines ! j)"
      using last_hit_exists [of lines P] by blast
    have r1: "fst (set_plugin_enabled_in_plugins_lines lines plugin enable) = lines[k := e]"
      using k unfolding P_def e_def by (intro set_plugin_enabled_update) simp_all
    have "fst (set_plugin_enabled_in_plugins_lines (lines[k := e]) plugin enable)
            = (lines[k := e])[k := plugins_entry (strip plugin) enable]"
      using k eh unfolding P_def by (intro set_plugin_enabled_update) auto
    then show ?thesis unfolding r1 by (simp add: e_def)
  qed
qed

section \<open>Applying the enable and disable sets\<close>

lemma in_enabled_mod_names:
  "n \<in> set (enabled_mod_names L) \<longleftrightarrow>
     (\<exists>ln \<in> set L. strip ln \<noteq> [] \<and> \<not> startswith (strip ln) ''#'' \<and> hd (strip ln) = CHR ''+''
                    \<and> n = strip (tl (strip ln)))"
  by (auto simp: enabled_mod_names_def Let_def)

lemma enabled_line_hits:
  assumes "strip ln \<noteq> []" and "\<not> startswith (strip ln) ''#''" and "strip (tl (strip ln)) = m" and "m \<noteq> []"
  shows "modlist_line_hits m ln"
proof -
  have "tl (strip ln) \<noteq> []" using assms(3,4) by auto
  then have "2 \<le> length (strip ln)" by (cases "strip ln") (auto simp: Suc_le_eq)
  then show ?thesis using assms by (simp add: modlist_line_hits_def names_mod_def)
qed

lemma hd_strip_minus_entry: "hd (strip (CHR ''-'' # m @ [CHR 0x0A])) = CHR ''-''"
  by (simp add: strip_Cons_nonspace)

lemma set_mod_enabled_lines_from:
  "ln \<in> set (set_mod_enabled_in_lines lines m enable) \<Longrightarrow>
     ln = (if enable then ''+'' else ''-'') @ m @ [CHR 0x0A]
     \<or> (\<exists>l \<in> set lines. ln = ensure_nl l
           \<and> ((\<exists>x \<in> set lines. modlist_line_hits m x) \<longrightarrow> \<not> names_mod (strip l) m))"
proof (cases "\<exists>x \<in> set lines. modlist_line_hits m x")
  case False
  assume "ln \<in> set (set_mod_enabled_in_lines lines m enable)"
  moreover have "set_mod_enabled_in_lines lines m enable
           = map ensure_nl lines @ [(if enable then ''+'' else ''-'') @ m @ [CHR 0x0A]]"
    using False by (intro set_mod_enabled_none) blast
  ultimately show ?thesis using False by auto
next
  case True
  assume a: "ln \<in> set (set_mod_enabled_in_lines lines m enable)"
  obtain k where
    r: "set_mod_enabled_in_lines lines m enable
             = take k (filter (\<lambda>ln. \<not> names_mod (strip ln) m) (map ensure_nl lines))
               @ ((if enable then ''+'' else ''-'') @ m @ [CHR 0x0A])
               # drop k (filter (\<lambda>ln. \<not> names_mod (strip ln) m) (map ensure_nl lines))"
    using set_mod_enabled_some [OF True, of enable] by blast
  have "ln = (if enable then ''+'' else ''-'') @ m @ [CHR 0x0A]
          \<or> ln \<in> set (filter (\<lambda>ln. \<not> names_mod (strip ln) m) (map ensure_nl lines))"
    using a unfolding r by (auto dest: in_set_takeD in_set_dropD)
  then show ?thesis by auto
qed

lemma enabled_after_disable:
  assumes "n \<in> set (enabled_mod_names (set_mod_enabled_in_lines lines m False))"
  shows "n \<in> set (enabled_mod_names lines) \<and> (m \<noteq> [] \<longrightarrow> n \<noteq> m)"
proof -
  obtain ln where ln: "ln \<in> set (set_mod_enabled_in_lines lines m False)"
      "strip ln \<noteq> []" "\<not> startswith (strip ln) ''#''" "hd (strip ln) = CHR ''+''"
      "n = strip (tl (strip ln))"
    using assms unfolding in_enabled_mod_names by blast
  have "ln \<noteq> ''-'' @ m @ [CHR 0x0A]"
    using ln(4) hd_strip_minus_entry [of m] by auto
  then obtain l where l: "l \<in> set lines" "ln = ensure_nl l"
      "(\<exists>x \<in> set lines. modlist_line_hits m x) \<longrightarrow> \<not> names_mod (strip l) m"
    using set_mod_enabled_lines_from [OF ln(1)] by auto
  have s: "strip ln = strip l" using l(2) by simp
  have 1: "n \<in> set (enabled_mod_names lines)"
    unfolding in_enabled_mod_names using l(1) ln(2-5) s by auto
  have 2: "m \<noteq> [] \<longrightarrow> n \<noteq> m"
  proof (intro impI notI)
    assume m: "m \<noteq> []" and "n = m"
    then have h: "modlist_line_hits m l"
      using ln(2,3,5) s by (intro enabled_line_hits) auto
    then have "\<not> names_mod (strip l) m" using l(1,3) by blast
    then show False using h modlist_line_hits_names by blast
  qed
  show ?thesis using 1 2 by simp
qed

lemma enabled_after_disables:
  "n \<in> set (enabled_mod_names (fold (\<lambda>m ls. set_mod_enabled_in_lines ls m False) ms lines)) \<Longrightarrow>
     n \<in> set (enabled_mod_names lines) \<and> (n \<noteq> [] \<longrightarrow> n \<notin> set ms)"
proof (induction ms arbitrary: lines)
  case Nil
  then show ?case by simp
next
  case (Cons m ms)
  then have a: "n \<in> set (enabled_mod_names (set_mod_enabled_in_lines lines m False))"
      and b: "n \<noteq> [] \<longrightarrow> n \<notin> set ms"
    by auto
  from enabled_after_disable [OF a] b show ?case by auto
qed

text \<open>Lines that a later mutation for another mod keeps, and the entry a mutation leaves.\<close>

lemma set_mod_enabled_keeps:
  assumes "l \<in> set lines" and "ensure_nl l = l" and "\<not> names_mod (strip l) m"
  shows "l \<in> set (set_mod_enabled_in_lines lines m enable)"
proof (cases "\<exists>x \<in> set lines. modlist_line_hits m x")
  case False
  then have "set_mod_enabled_in_lines lines m enable
           = map ensure_nl lines @ [(if enable then ''+'' else ''-'') @ m @ [CHR 0x0A]]"
    by (intro set_mod_enabled_none) blast
  moreover have "l \<in> set (map ensure_nl lines)" using assms(1,2) by force
  ultimately show ?thesis by simp
next
  case True
  let ?F = "filter (\<lambda>ln. \<not> names_mod (strip ln) m) (map ensure_nl lines)"
  obtain k where
    r: "set_mod_enabled_in_lines lines m enable
             = take k ?F @ ((if enable then ''+'' else ''-'') @ m @ [CHR 0x0A]) # drop k ?F"
    using set_mod_enabled_some [OF True, of enable] by blast
  have "l \<in> set (map ensure_nl lines)" using assms(1,2) by force
  then have "l \<in> set ?F" using assms(3) by simp
  moreover have "set (take k ?F) \<union> set (drop k ?F) = set ?F"
    by (metis append_take_drop_id set_append)
  ultimately have "l \<in> set (take k ?F) \<union> set (drop k ?F)" by simp
  then show ?thesis unfolding r by auto
qed

lemma set_mod_enabled_has_entry:
  "(if enable then ''+'' else ''-'') @ m @ [CHR 0x0A] \<in> set (set_mod_enabled_in_lines lines m enable)"
proof (cases "\<exists>x \<in> set lines. modlist_line_hits m x")
  case False
  then have "set_mod_enabled_in_lines lines m enable
           = map ensure_nl lines @ [(if enable then ''+'' else ''-'') @ m @ [CHR 0x0A]]"
    by (intro set_mod_enabled_none) blast
  then show ?thesis by simp
next
  case True
  then show ?thesis using set_mod_enabled_some [OF True, of enable] by auto
qed

lemma fold_set_mod_keeps:
  assumes "ensure_nl l = l" and "\<forall>m \<in> set ms. \<not> names_mod (strip l) m"
  shows "l \<in> set lines \<Longrightarrow> l \<in> set (fold (\<lambda>m ls. set_mod_enabled_in_lines ls m enable) ms lines)"
  using assms(2)
proof (induction ms arbitrary: lines)
  case Nil
  then show ?case by simp
next
  case (Cons m ms)
  have "l \<in> set (set_mod_enabled_in_lines lines m enable)"
    using Cons.prems assms(1) by (intro set_mod_enabled_keeps) auto
  then show ?case using Cons by simp
qed

lemma fold_set_mod_has_entry:
  assumes st: "strip m = m" and ne: "m \<noteq> []" and "m \<in> set ms" and "distinct ms"
  shows "(if enable then ''+'' else ''-'') @ m @ [CHR 0x0A]
           \<in> set (fold (\<lambda>m ls. set_mod_enabled_in_lines ls m enable) ms lines)"
proof -
  let ?e = "(if enable then ''+'' else ''-'') @ m @ [CHR 0x0A]"
  obtain pre post where ms: "ms = pre @ m # post" using assms(3) by (auto simp: in_set_conv_decomp)
  then have np: "m \<notin> set post" using assms(4) by simp
  have se: "strip ?e = (if enable then ''+'' else ''-'') @ m"
    using strip_sign_entry [OF st, of "CHR ''+''"] strip_sign_entry [OF st, of "CHR ''-''"] by simp
  have "\<forall>m' \<in> set post. \<not> names_mod (strip ?e) m'"
    using np st by (auto simp: se names_mod_def)
  moreover have "ensure_nl ?e = ?e" by (rule ensure_nl_ended) simp_all
  moreover have "?e \<in> set (set_mod_enabled_in_lines
        (fold (\<lambda>m ls. set_mod_enabled_in_lines ls m enable) pre lines) m enable)"
    by (rule set_mod_enabled_has_entry)
  ultimately have "?e \<in> set (fold (\<lambda>m ls. set_mod_enabled_in_lines ls m enable) post
        (set_mod_enabled_in_lines (fold (\<lambda>m ls. set_mod_enabled_in_lines ls m enable) pre lines) m enable))"
    by (intro fold_set_mod_keeps [where ms = post])
  then show ?thesis by (simp add: ms)
qed


text \<open>
  C5. \<open>apply_mod_sets\<close> applies the enables of \<open>mods_to_enable - mods_to_disable\<close> first
  and the disables of \<open>mods_to_disable\<close> after them, each in sorted order. A mod named in
  both sets is only disabled: no mod of the disable set with a non-empty name is enabled in
  the result. For names without surrounding blanks, the result holds the \<open>-\<close> entry of every
  mod of the disable set and the \<open>+\<close> entry of every mod that is only in the enable set.
\<close>

theorem apply_mod_sets_conflict_disabled:
  "apply_mod_sets_lines [''+a''] {''a''} {''a''} = [''-a'' @ [CHR 0x0A]]
   \<and> ''a'' \<notin> set (enabled_mod_names (apply_mod_sets_lines [''+a''] {''a''} {''a''}))
   \<and> apply_mod_sets_lines [] {''x''} {''a''} = [''+x'' @ [CHR 0x0A], ''-a'' @ [CHR 0x0A]]"
  by code_simp

theorem apply_mod_sets_disable_wins:
  assumes fe: "finite mods_to_enable" and fd: "finite mods_to_disable"
  shows
    "apply_mod_sets_lines lines mods_to_enable mods_to_disable
       = fold (\<lambda>m ls. set_mod_enabled_in_lines ls m False) (sorted_list_of_set mods_to_disable)
           (fold (\<lambda>m ls. set_mod_enabled_in_lines ls m True)
              (sorted_list_of_set (mods_to_enable - mods_to_disable)) lines)
     \<and> (\<forall>m \<in> mods_to_disable. m \<noteq> [] \<longrightarrow>
           m \<notin> set (enabled_mod_names (apply_mod_sets_lines lines mods_to_enable mods_to_disable)))
     \<and> (\<forall>m \<in> mods_to_disable. strip m = m \<and> m \<noteq> [] \<longrightarrow>
           ''-'' @ m @ [CHR 0x0A] \<in> set (apply_mod_sets_lines lines mods_to_enable mods_to_disable))
     \<and> (\<forall>m \<in> mods_to_enable - mods_to_disable. strip m = m \<and> m \<noteq> [] \<longrightarrow>
           ''+'' @ m @ [CHR 0x0A] \<in> set (apply_mod_sets_lines lines mods_to_enable mods_to_disable)
           \<and> m \<in> set (enabled_mod_names (apply_mod_sets_lines lines mods_to_enable mods_to_disable)))"
proof (intro conjI ballI impI)
  let ?E = "sorted_list_of_set (mods_to_enable - mods_to_disable)"
  let ?D = "sorted_list_of_set mods_to_disable"
  let ?L1 = "fold (\<lambda>m ls. set_mod_enabled_in_lines ls m True) ?E lines"
  have r: "apply_mod_sets_lines lines mods_to_enable mods_to_disable
             = fold (\<lambda>m ls. set_mod_enabled_in_lines ls m False) ?D ?L1"
    by (simp add: apply_mod_sets_lines_def Let_def)
  show "apply_mod_sets_lines lines mods_to_enable mods_to_disable
             = fold (\<lambda>m ls. set_mod_enabled_in_lines ls m False) ?D ?L1"
    by (rule r)
  have sD: "set ?D = mods_to_disable" using fd by simp
  have sE: "set ?E = mods_to_enable - mods_to_disable" using fe by simp
  {
    fix m assume m: "m \<in> mods_to_disable" "m \<noteq> []"
    show "m \<notin> set (enabled_mod_names (apply_mod_sets_lines lines mods_to_enable mods_to_disable))"
      unfolding r using enabled_after_disables [of m ?D ?L1] m sD by blast
  }
  {
    fix m assume m: "m \<in> mods_to_disable" "strip m = m \<and> m \<noteq> []"
    have "(if False then ''+'' else ''-'') @ m @ [CHR 0x0A]
            \<in> set (fold (\<lambda>m ls. set_mod_enabled_in_lines ls m False) ?D ?L1)"
      using m sD by (intro fold_set_mod_has_entry) simp_all
    then show "''-'' @ m @ [CHR 0x0A] \<in> set (apply_mod_sets_lines lines mods_to_enable mods_to_disable)"
      unfolding r by simp
  }
  fix m assume m: "m \<in> mods_to_enable - mods_to_disable" "strip m = m \<and> m \<noteq> []"
  have se: "strip (CHR ''+'' # m @ [CHR 0x0A]) = CHR ''+'' # m"
    using m(2) by (intro strip_sign_entry) simp_all
  have "(if True then ''+'' else ''-'') @ m @ [CHR 0x0A] \<in> set ?L1"
    using m sE by (intro fold_set_mod_has_entry) simp_all
  then have in1: "CHR ''+'' # m @ [CHR 0x0A] \<in> set ?L1" by simp
  have nn: "\<forall>m' \<in> set ?D. \<not> names_mod (strip (CHR ''+'' # m @ [CHR 0x0A])) m'"
    using m sD by (auto simp: se names_mod_def)
  have nl: "ensure_nl (CHR ''+'' # m @ [CHR 0x0A]) = CHR ''+'' # m @ [CHR 0x0A]"
    by (rule ensure_nl_ended) simp_all
  have "CHR ''+'' # m @ [CHR 0x0A]
      \<in> set (fold (\<lambda>m ls. set_mod_enabled_in_lines ls m False) ?D ?L1)"
    by (rule fold_set_mod_keeps [OF nl nn in1])
  then show in2: "''+'' @ m @ [CHR 0x0A] \<in> set (apply_mod_sets_lines lines mods_to_enable mods_to_disable)"
    unfolding r by simp
  show "m \<in> set (enabled_mod_names (apply_mod_sets_lines lines mods_to_enable mods_to_disable))"
    unfolding in_enabled_mod_names
    using in2 m(2) by (intro bexI [of _ "''+'' @ m @ [CHR 0x0A]"]) (simp_all add: se)
qed

theorem apply_mod_sets_disable_wins_witness:
  "''a'' \<notin> set (enabled_mod_names (apply_mod_sets_lines [''+a''] {''x'', ''a''} {''a''}))
   \<and> ''-a'' @ [CHR 0x0A] \<in> set (apply_mod_sets_lines [''+a''] {''x'', ''a''} {''a''})
   \<and> ''x'' \<in> set (enabled_mod_names (apply_mod_sets_lines [''+a''] {''x'', ''a''} {''a''}))"
proof -
  have fe: "finite {''x'', ''a''}" and fd: "finite {''a''}" by simp_all
  note t = apply_mod_sets_disable_wins [OF fe fd, of "[''+a'']"]
  have sa: "strip ''a'' = ''a'' \<and> ''a'' \<noteq> []" by code_simp
  have sx: "strip ''x'' = ''x'' \<and> ''x'' \<noteq> []" by code_simp
  have xin: "''x'' \<in> {''x'', ''a''} - {''a''}" by simp
  from t [THEN conjunct2, THEN conjunct1] have 1:
    "''a'' \<notin> set (enabled_mod_names (apply_mod_sets_lines [''+a''] {''x'', ''a''} {''a''}))"
    by simp
  from t [THEN conjunct2, THEN conjunct2, THEN conjunct1] sa have 2:
    "''-a'' @ [CHR 0x0A] \<in> set (apply_mod_sets_lines [''+a''] {''x'', ''a''} {''a''})"
    by simp
  from t [THEN conjunct2, THEN conjunct2, THEN conjunct2, THEN bspec, OF xin] sx have 3:
    "''x'' \<in> set (enabled_mod_names (apply_mod_sets_lines [''+a''] {''x'', ''a''} {''a''}))"
    by blast
  show ?thesis using 1 2 3 by blast
qed

section \<open>Mod list: position of the entry, repeated mutation, repeated run\<close>

text \<open>
  C4. When no line names the mod, the entry is appended. When lines name it, they are all
  taken out and the entry is inserted at the index that the last of them had in the input,
  or at the end when the list left is shorter: with earlier duplicates the entry lands
  below lines that followed the last occurrence. Below, every occurrence of \<open>a\<close> stands
  before \<open>+b\<close> and the entry ends up after it. The second loop has no test for comments,
  so a comment whose text is the mod name is taken out as well.
\<close>

theorem set_mod_enabled_moves_entry:
  "set_mod_enabled_in_lines [''+a'', ''+a'', ''+a'', ''+b''] ''a'' True
     = [''+b'' @ [CHR 0x0A], ''+a'' @ [CHR 0x0A]]
   \<and> set_mod_enabled_in_lines [''+a'', ''+b'', ''+a'', ''+c''] ''a'' True
     = [''+b'' @ [CHR 0x0A], ''+c'' @ [CHR 0x0A], ''+a'' @ [CHR 0x0A]]
   \<and> set_mod_enabled_in_lines [''# a'', ''+a''] ''a'' False = [''-a'' @ [CHR 0x0A]]"
  by code_simp

text \<open>
  C6. Applying \<open>set_mod_enabled_in_lines\<close> twice gives what applying it once gives when the
  mod name is not empty, has no surrounding blanks and, if a comment line carries it, an
  entry line carries it too. Applying \<open>_set_plugin_enabled_in_plugins_lines\<close> twice gives
  the lines that applying it once gives when it enables, and when it disables a plugin whose
  stripped name is not empty and starts with neither \<open>#\<close> nor \<open>*\<close>. Outside these
  conditions the second application appends a second entry, or takes a comment out.
\<close>

theorem mutations_applied_twice_differ:
  "set_mod_enabled_in_lines (set_mod_enabled_in_lines [] '' a'' True) '' a'' True
     \<noteq> set_mod_enabled_in_lines [] '' a'' True
   \<and> set_mod_enabled_in_lines (set_mod_enabled_in_lines [] [] True) [] True
     \<noteq> set_mod_enabled_in_lines [] [] True
   \<and> set_mod_enabled_in_lines (set_mod_enabled_in_lines [''#a''] ''a'' True) ''a'' True
     \<noteq> set_mod_enabled_in_lines [''#a''] ''a'' True
   \<and> fst (set_plugin_enabled_in_plugins_lines
            (fst (set_plugin_enabled_in_plugins_lines [] [] False)) [] False)
     \<noteq> fst (set_plugin_enabled_in_plugins_lines [] [] False)
   \<and> fst (set_plugin_enabled_in_plugins_lines
            (fst (set_plugin_enabled_in_plugins_lines [''**a''] ''*a'' False)) ''*a'' False)
     \<noteq> fst (set_plugin_enabled_in_plugins_lines [''**a''] ''*a'' False)"
  by code_simp

theorem mutations_applied_twice:
  "(strip mod_name = mod_name \<and> mod_name \<noteq> []
      \<and> ((\<exists>ln \<in> set lines. names_mod (strip ln) mod_name)
           \<longrightarrow> (\<exists>ln \<in> set lines. modlist_line_hits mod_name ln))
      \<longrightarrow> set_mod_enabled_in_lines (set_mod_enabled_in_lines lines mod_name enable) mod_name enable
            = set_mod_enabled_in_lines lines mod_name enable)
   \<and> (enable \<or> (strip plugin \<noteq> [] \<and> \<not> startswith (strip plugin) ''#''
                   \<and> \<not> startswith (strip plugin) ''*'')
      \<longrightarrow> fst (set_plugin_enabled_in_plugins_lines
                 (fst (set_plugin_enabled_in_plugins_lines plines plugin enable)) plugin enable)
            = fst (set_plugin_enabled_in_plugins_lines plines plugin enable))"
proof (intro conjI impI)
  assume h: "strip mod_name = mod_name \<and> mod_name \<noteq> []
      \<and> ((\<exists>ln \<in> set lines. names_mod (strip ln) mod_name)
           \<longrightarrow> (\<exists>ln \<in> set lines. modlist_line_hits mod_name ln))"
  then show "set_mod_enabled_in_lines (set_mod_enabled_in_lines lines mod_name enable) mod_name enable
            = set_mod_enabled_in_lines lines mod_name enable"
    by (intro set_mod_enabled_twice) simp_all
next
  assume "enable \<or> (strip plugin \<noteq> [] \<and> \<not> startswith (strip plugin) ''#''
                   \<and> \<not> startswith (strip plugin) ''*'')"
  then show "fst (set_plugin_enabled_in_plugins_lines
                 (fst (set_plugin_enabled_in_plugins_lines plines plugin enable)) plugin enable)
            = fst (set_plugin_enabled_in_plugins_lines plines plugin enable)"
    by (rule set_plugin_enabled_twice)
qed

theorem mutations_applied_twice_witness:
  "set_mod_enabled_in_lines (set_mod_enabled_in_lines [''# c'', ''-a'', ''+b'', ''+a''] ''a'' True) ''a'' True
     = set_mod_enabled_in_lines [''# c'', ''-a'', ''+b'', ''+a''] ''a'' True
   \<and> set_mod_enabled_in_lines [''# c'', ''-a'', ''+b'', ''+a''] ''a'' True
     = [''# c'' @ [CHR 0x0A], ''+b'' @ [CHR 0x0A], ''+a'' @ [CHR 0x0A]]
   \<and> fst (set_plugin_enabled_in_plugins_lines
            (fst (set_plugin_enabled_in_plugins_lines [''*a.esp'' @ [CHR 0x0A]] ''A.esp'' False)) ''A.esp'' False)
     = fst (set_plugin_enabled_in_plugins_lines [''*a.esp'' @ [CHR 0x0A]] ''A.esp'' False)
   \<and> fst (set_plugin_enabled_in_plugins_lines [''*a.esp'' @ [CHR 0x0A]] ''A.esp'' False)
     = [''A.esp'' @ [CHR 0x0A]]"
proof -
  have h1: "strip ''a'' = ''a'' \<and> ''a'' \<noteq> []
      \<and> ((\<exists>ln \<in> set [''# c'', ''-a'', ''+b'', ''+a'']. names_mod (strip ln) ''a'')
           \<longrightarrow> (\<exists>ln \<in> set [''# c'', ''-a'', ''+b'', ''+a'']. modlist_line_hits ''a'' ln))"
    by code_simp
  have h2: "False \<or> (strip ''A.esp'' \<noteq> [] \<and> \<not> startswith (strip ''A.esp'') ''#''
                   \<and> \<not> startswith (strip ''A.esp'') ''*'')"
    by code_simp
  note t = mutations_applied_twice [where mod_name = "''a''" and lines = "[''# c'', ''-a'', ''+b'', ''+a'']"
      and enable = True]
  note u = mutations_applied_twice [where plugin = "''A.esp''" and plines = "[''*a.esp'' @ [CHR 0x0A]]"
      and enable = False]
  have a: "set_mod_enabled_in_lines (set_mod_enabled_in_lines [''# c'', ''-a'', ''+b'', ''+a''] ''a'' True) ''a'' True
     = set_mod_enabled_in_lines [''# c'', ''-a'', ''+b'', ''+a''] ''a'' True"
    using t [THEN conjunct1, THEN mp, OF h1] .
  have b: "fst (set_plugin_enabled_in_plugins_lines
            (fst (set_plugin_enabled_in_plugins_lines [''*a.esp'' @ [CHR 0x0A]] ''A.esp'' False)) ''A.esp'' False)
     = fst (set_plugin_enabled_in_plugins_lines [''*a.esp'' @ [CHR 0x0A]] ''A.esp'' False)"
    using u [THEN conjunct2, THEN mp, OF h2] .
  have c: "set_mod_enabled_in_lines [''# c'', ''-a'', ''+b'', ''+a''] ''a'' True
     = [''# c'' @ [CHR 0x0A], ''+b'' @ [CHR 0x0A], ''+a'' @ [CHR 0x0A]]"
    by code_simp
  have d: "fst (set_plugin_enabled_in_plugins_lines [''*a.esp'' @ [CHR 0x0A]] ''A.esp'' False)
     = [''A.esp'' @ [CHR 0x0A]]"
    by code_simp
  show ?thesis using a b c d by blast
qed

text \<open>
  C7. \<open>apply_mod_sets\<close> compares the lines it computed, which all end in a newline, with
  the lines \<open>splitlines\<close> returned, which never do: with a mod in either set the two differ
  and the mod list is written on every run, whatever it holds. Below, the second run on the
  file the first run left writes it again with the same text.
\<close>

lemma splitlines_acc_no_linebreak:
  "\<forall>c \<in> set cur. \<not> is_linebreak c \<Longrightarrow>
     \<forall>l \<in> set (splitlines_acc cur s). \<forall>c \<in> set l. \<not> is_linebreak c"
proof (induction cur s rule: splitlines_acc.induct)
  case (1 cur)
  then show ?case by simp
next
  case (2 cur c)
  then show ?case by simp
next
  case (3 cur c d cs)
  show ?case
  proof (cases "c = CHR 0x0D \<and> d = CHR 0x0A")
    case True
    have e: "splitlines_acc cur (c # d # cs) = cur # splitlines_acc [] cs"
      by (simp only: splitlines_acc.simps True if_True simp_thms)
    have "\<forall>l \<in> set (splitlines_acc [] cs). \<forall>c \<in> set l. \<not> is_linebreak c"
      by (rule "3.IH"(1) [OF True]) simp
    then show ?thesis unfolding e using "3.prems" by simp
  next
    case False
    show ?thesis
    proof (cases "is_linebreak c")
      case True
      have e: "splitlines_acc cur (c # d # cs) = cur # splitlines_acc [] (d # cs)"
        using False True by (simp only: splitlines_acc.simps if_True if_False simp_thms)
      have "\<forall>l \<in> set (splitlines_acc [] (d # cs)). \<forall>c \<in> set l. \<not> is_linebreak c"
        by (rule "3.IH"(2) [OF False True]) simp
      then show ?thesis unfolding e using "3.prems" by simp
    next
      case nl: False
      have e: "splitlines_acc cur (c # d # cs) = splitlines_acc (cur @ [c]) (d # cs)"
        using False nl by (simp only: splitlines_acc.simps if_True if_False simp_thms)
      have "\<forall>x \<in> set (cur @ [c]). \<not> is_linebreak x" using "3.prems" nl by simp
      then have "\<forall>l \<in> set (splitlines_acc (cur @ [c]) (d # cs)). \<forall>c \<in> set l. \<not> is_linebreak c"
        by (rule "3.IH"(3) [OF False nl])
      then show ?thesis unfolding e .
    qed
  qed
qed

lemma read_modlist_no_newline:
  "l \<in> set (read_modlist faults fs p) \<Longrightarrow> \<not> endswith l [CHR 0x0A]"
proof
  assume l: "l \<in> set (read_modlist faults fs p)" and e: "endswith l [CHR 0x0A]"
  then obtain t where "l \<in> set (splitlines_acc [] t)"
    by (auto simp: read_modlist_def splitlines_def split: sum.splits)
  then have "\<forall>c \<in> set l. \<not> is_linebreak c"
    using splitlines_acc_no_linebreak [of "[]" t] by simp
  moreover have "CHR 0x0A \<in> set l" using e by (metis endswith_single last_in_set)
  moreover have "is_linebreak (CHR 0x0A)" by (simp add: is_linebreak_def)
  ultimately show False by blast
qed

lemma set_mod_enabled_all_newline:
  "ln \<in> set (set_mod_enabled_in_lines lines m enable) \<Longrightarrow> endswith ln [CHR 0x0A]"
proof -
  assume "ln \<in> set (set_mod_enabled_in_lines lines m enable)"
  then have "ln = (if enable then ''+'' else ''-'') @ m @ [CHR 0x0A] \<or> (\<exists>l. ln = ensure_nl l)"
    using set_mod_enabled_lines_from [of ln lines m enable] by blast
  then show ?thesis by (auto simp: endswith_single ensure_nl_def split: if_splits)
qed

lemma fold_set_mod_all_newline:
  assumes "ms \<noteq> []"
  shows "fold (\<lambda>m ls. set_mod_enabled_in_lines ls m enable) ms lines \<noteq> []
         \<and> (\<forall>ln \<in> set (fold (\<lambda>m ls. set_mod_enabled_in_lines ls m enable) ms lines). endswith ln [CHR 0x0A])"
proof -
  obtain ys y where ms: "ms = ys @ [y]" using assms by (cases ms rule: rev_cases) auto
  have r: "fold (\<lambda>m ls. set_mod_enabled_in_lines ls m enable) ms lines
        = set_mod_enabled_in_lines (fold (\<lambda>m ls. set_mod_enabled_in_lines ls m enable) ys lines) y enable"
    by (simp add: ms)
  have "(if enable then ''+'' else ''-'') @ y @ [CHR 0x0A]
          \<in> set (set_mod_enabled_in_lines (fold (\<lambda>m ls. set_mod_enabled_in_lines ls m enable) ys lines) y enable)"
    by (rule set_mod_enabled_has_entry)
  then have "set_mod_enabled_in_lines (fold (\<lambda>m ls. set_mod_enabled_in_lines ls m enable) ys lines) y enable \<noteq> []"
    by (metis empty_iff list.set(1))
  then show ?thesis
    unfolding r using set_mod_enabled_all_newline by blast
qed

lemma apply_mod_sets_lines_all_newline:
  assumes "finite mods_to_enable" and "finite mods_to_disable"
      and "mods_to_enable \<union> mods_to_disable \<noteq> {}"
  shows "apply_mod_sets_lines lines mods_to_enable mods_to_disable \<noteq> []
         \<and> (\<forall>ln \<in> set (apply_mod_sets_lines lines mods_to_enable mods_to_disable). endswith ln [CHR 0x0A])"
proof (cases "mods_to_disable = {}")
  case True
  then have "sorted_list_of_set (mods_to_enable - mods_to_disable) \<noteq> []"
    using assms by (simp add: sorted_list_of_set_eq_Nil_iff)
  then show ?thesis
    using fold_set_mod_all_newline [of "sorted_list_of_set (mods_to_enable - mods_to_disable)" True lines] True
    by (simp add: apply_mod_sets_lines_def Let_def)
next
  case False
  then have "sorted_list_of_set mods_to_disable \<noteq> []"
    using assms by (simp add: sorted_list_of_set_eq_Nil_iff)
  then show ?thesis
    using fold_set_mod_all_newline [of "sorted_list_of_set mods_to_disable" False]
    by (simp add: apply_mod_sets_lines_def Let_def)
qed

lemma apply_mod_sets_always_writes:
  assumes "finite mods_to_enable" and "finite mods_to_disable"
      and "mods_to_enable \<union> mods_to_disable \<noteq> {}" and "\<not> faults (Mkdir_parent p)"
  shows "fst (apply_mod_sets faults fs p mods_to_enable mods_to_disable) = Inr Applied"
proof -
  let ?o = "read_modlist faults fs p"
  let ?n = "apply_mod_sets_lines ?o mods_to_enable mods_to_disable"
  have n: "?n \<noteq> []" "\<forall>ln \<in> set ?n. endswith ln [CHR 0x0A]"
    using apply_mod_sets_lines_all_newline [OF assms(1-3)] by auto
  have "?n \<noteq> ?o"
  proof
    assume eq: "?n = ?o"
    obtain ln where "ln \<in> set ?n" using n(1) by (cases ?n) auto
    then show False using n(2) read_modlist_no_newline [of ln faults fs p] eq by auto
  qed
  then show ?thesis using assms(4)
    by (simp add: apply_mod_sets_def fs_mkdir_parent_def Let_def split: prod.splits)
qed

theorem apply_mod_sets_rerun_writes:
  "fst (apply_mod_sets (\<lambda>op. False) [''modlist.txt'' \<mapsto> ''+a'' @ [CHR 0x0A]] ''modlist.txt'' {''a''} {})
     = Inr Applied
   \<and> snd (apply_mod_sets (\<lambda>op. False) [''modlist.txt'' \<mapsto> ''+a'' @ [CHR 0x0A]] ''modlist.txt'' {''a''} {})
        ''modlist.txt'' = Some (''+a'' @ [CHR 0x0A])
   \<and> fst (apply_mod_sets (\<lambda>op. False)
        (snd (apply_mod_sets (\<lambda>op. False) [''modlist.txt'' \<mapsto> ''+a'' @ [CHR 0x0A]] ''modlist.txt'' {''a''} {}))
        ''modlist.txt'' {''a''} {})
     = Inr Applied"
proof -
  have f: "finite {''a''}" "finite ({} :: string set)" "{''a''} \<union> {} \<noteq> ({} :: string set)"
    "\<not> (\<lambda>op. False) (Mkdir_parent ''modlist.txt'')"
    by simp_all
  have 1: "fst (apply_mod_sets (\<lambda>op. False) fs ''modlist.txt'' {''a''} {}) = Inr Applied" for fs
    using f by (rule apply_mod_sets_always_writes)
  have 2: "snd (apply_mod_sets (\<lambda>op. False) [''modlist.txt'' \<mapsto> ''+a'' @ [CHR 0x0A]] ''modlist.txt'' {''a''} {})
        ''modlist.txt'' = Some (''+a'' @ [CHR 0x0A])"
    by code_simp
  show ?thesis using 1 2 by simp
qed

section \<open>Group file: what a synchronization keeps\<close>

lemma dict_set_keys: "fst ` set (dict_set k v d) = insert k (fst ` set d)"
proof (induction d)
  case Nil
  then show ?case by simp
next
  case (Cons kv d)
  obtain k' v' where kv: "kv = (k', v')" by (cases kv)
  show ?case
  proof (cases "k' = k")
    case True
    then show ?thesis by (simp add: kv)
  next
    case False
    then show ?thesis using Cons.IH by (simp add: kv insert_commute)
  qed
qed

lemma dict_set_distinct: "distinct (map fst d) \<Longrightarrow> distinct (map fst (dict_set k v d))"
proof (induction d)
  case Nil
  then show ?case by simp
next
  case (Cons kv d)
  obtain k' v' where kv: "kv = (k', v')" by (cases kv)
  show ?case
  proof (cases "k' = k")
    case True
    then show ?thesis using Cons.prems kv by simp
  next
    case False
    have "k' \<notin> fst ` set (dict_set k v d)"
      using False Cons.prems kv by (simp add: dict_set_keys)
    then show ?thesis using False Cons kv by simp
  qed
qed

lemma dict_set_map_of: "map_of (dict_set k v d) = (map_of d)(k \<mapsto> v)"
  by (induction d) (auto simp: fun_eq_iff)

lemma line_without_newline:
  assumes "\<forall>c \<in> set l. \<not> is_linebreak c"
  shows "rev (dropWhile (\<lambda>c. c = CHR 0x0A) (rev l)) = l" and "ensure_nl l = l @ [CHR 0x0A]"
proof -
  have lf: "is_linebreak (CHR 0x0A)" by (simp add: is_linebreak_def)
  have "l = [] \<or> \<not> (\<lambda>c. c = CHR 0x0A) (last l)"
    using assms lf by (cases l rule: rev_cases) auto
  then show "rev (dropWhile (\<lambda>c. c = CHR 0x0A) (rev l)) = l" by (rule rstrip_id)
  have "l \<noteq> [] \<Longrightarrow> last l \<noteq> CHR 0x0A"
    using assms lf by (cases l rule: rev_cases) auto
  then show "ensure_nl l = l @ [CHR 0x0A]" by (auto simp: ensure_nl_def endswith_single)
qed

lemma splitlines_lines:
  "l \<in> set (splitlines t) \<Longrightarrow> \<forall>c \<in> set l. \<not> is_linebreak c"
  using splitlines_acc_no_linebreak [of "[]" t] by (simp add: splitlines_def)

lemma read_groups_step_kinds:
  assumes "rev (dropWhile (\<lambda>c. c = CHR 0x0A) (rev l)) = l"
  shows "read_groups_step l (m, h, o', cp) =
           (if groups_comment_line l then
              (if cp then (m, h, o' @ [l], cp) else (m, h @ [l], o', cp))
            else (case groups_entry l of
                    None \<Rightarrow> (m, h, o' @ [l], True)
                  | Some (p, g) \<Rightarrow> (dict_set p g m, h, o', True)))"
  by (simp add: read_groups_step_def assms groups_comment_line_def groups_entry_def Let_def)

lemma groups_entry_comment: "groups_comment_line l \<Longrightarrow> groups_entry l = None"
  by (simp add: groups_entry_def)

lemma read_groups_fold_kinds:
  assumes "\<forall>l \<in> set ls. rev (dropWhile (\<lambda>c. c = CHR 0x0A) (rev l)) = l"
  shows "fold read_groups_step ls (m, h, o', cp) =
           (fold (\<lambda>l d. case groups_entry l of None \<Rightarrow> d | Some (p, g) \<Rightarrow> dict_set p g d) ls m,
            h @ (if cp then [] else takeWhile groups_comment_line ls),
            o' @ filter (\<lambda>l. groups_entry l = None) (if cp then ls else dropWhile groups_comment_line ls),
            cp \<or> \<not> (\<forall>l \<in> set ls. groups_comment_line l))"
  using assms
proof (induction ls arbitrary: m h o' cp)
  case Nil
  then show ?case by simp
next
  case (Cons l ls)
  have l: "rev (dropWhile (\<lambda>c. c = CHR 0x0A) (rev l)) = l" using Cons.prems by simp
  have rest: "\<forall>x \<in> set ls. rev (dropWhile (\<lambda>c. c = CHR 0x0A) (rev x)) = x" using Cons.prems by simp
  note ih = Cons.IH [OF rest]
  show ?case
  proof (cases "groups_comment_line l")
    case True
    then have e: "groups_entry l = None" by (rule groups_entry_comment)
    show ?thesis
    proof (cases cp)
      case cpT: True
      have s: "read_groups_step l (m, h, o', True) = (m, h, o' @ [l], True)"
        using True by (simp add: read_groups_step_kinds [OF l])
      show ?thesis
        using cpT e by (simp add: s ih)
    next
      case cpF: False
      have s: "read_groups_step l (m, h, o', False) = (m, h @ [l], o', False)"
        using True by (simp add: read_groups_step_kinds [OF l])
      show ?thesis
        using cpF e True by (simp add: s ih)
    qed
  next
    case False
    show ?thesis
    proof (cases "groups_entry l")
      case None
      have s: "read_groups_step l (m, h, o', cp) = (m, h, o' @ [l], True)"
        using False None by (simp add: read_groups_step_kinds [OF l])
      show ?thesis
        using False None by (simp add: s ih)
    next
      case (Some pg)
      obtain p g where pg: "pg = (p, g)" by (cases pg)
      have s: "read_groups_step l (m, h, o', cp) = (dict_set p g m, h, o', True)"
        using False Some pg by (simp add: read_groups_step_kinds [OF l])
      show ?thesis
        using False Some pg by (simp add: s ih)
    qed
  qed
qed

lemma read_plugingroups_file_kinds:
  assumes "fs_read_text faults fs p = Inr t"
  shows "read_plugingroups_file faults fs p =
           (fold (\<lambda>l d. case groups_entry l of None \<Rightarrow> d | Some (p, g) \<Rightarrow> dict_set p g d)
              (splitlines t) [],
            (if takeWhile groups_comment_line (splitlines t) = [] then default_groups_header
             else takeWhile groups_comment_line (splitlines t)),
            filter (\<lambda>l. groups_entry l = None) (dropWhile groups_comment_line (splitlines t)))"
proof -
  have "\<forall>l \<in> set (splitlines t). rev (dropWhile (\<lambda>c. c = CHR 0x0A) (rev l)) = l"
    using splitlines_lines line_without_newline(1) by blast
  then show ?thesis
    by (simp add: read_plugingroups_file_def assms read_groups_fold_kinds)
qed

lemma entries_fold_distinct:
  "distinct (map fst m) \<Longrightarrow>
     distinct (map fst (fold (\<lambda>l d. case groups_entry l of None \<Rightarrow> d | Some (p, g) \<Rightarrow> dict_set p g d) ls m))"
proof (induction ls arbitrary: m)
  case Nil
  then show ?case by simp
next
  case (Cons l ls)
  have "distinct (map fst (case groups_entry l of None \<Rightarrow> m | Some (p, g) \<Rightarrow> dict_set p g m))"
    using Cons.prems by (auto simp: dict_set_distinct split: option.splits)
  then show ?case using Cons.IH by simp
qed

lemma entries_fold_keys:
  "fst ` set (fold (\<lambda>l d. case groups_entry l of None \<Rightarrow> d | Some (p, g) \<Rightarrow> dict_set p g d) ls m)
     = fst ` set m \<union> {p. \<exists>l \<in> set ls. \<exists>g. groups_entry l = Some (p, g)}"
proof (induction ls arbitrary: m)
  case Nil
  then show ?case by simp
next
  case (Cons l ls)
  show ?case
  proof (cases "groups_entry l")
    case None
    then show ?thesis using Cons.IH [of m] by auto
  next
    case (Some pg)
    obtain p g where pg: "pg = (p, g)" by (cases pg)
    have "fst ` set (fold (\<lambda>l d. case groups_entry l of None \<Rightarrow> d | Some (p, g) \<Rightarrow> dict_set p g d) (l # ls) m)
            = fst ` set (dict_set p g m) \<union> {p. \<exists>l \<in> set ls. \<exists>g. groups_entry l = Some (p, g)}"
      using Cons.IH [of "dict_set p g m"] Some pg by simp
    also have "\<dots> = fst ` set m \<union> {q. \<exists>x \<in> set (l # ls). \<exists>g. groups_entry x = Some (q, g)}"
      using Some pg by (auto simp: dict_set_keys)
    finally show ?thesis .
  qed
qed

lemma emit_group_fold:
  "\<exists>es. fold (emit_group mapping) ps (out, seen)
           = (out @ map (\<lambda>(p, g). group_line p g) es, seen @ map fst es)
         \<and> set es \<subseteq> set mapping
         \<and> distinct (map fst es)
         \<and> fst ` set es = (set ps \<inter> fst ` set mapping) - set seen"
proof (induction ps arbitrary: out seen)
  case Nil
  show ?case by (intro exI [of _ "[]"]) simp
next
  case (Cons p ps)
  show ?case
  proof (cases "map_of mapping p")
    case None
    then have np: "p \<notin> fst ` set mapping" by (simp add: map_of_eq_None_iff)
    have "emit_group mapping p (out, seen) = (out, seen)" using None by (simp add: emit_group_def)
    then have f: "fold (emit_group mapping) (p # ps) (out, seen) = fold (emit_group mapping) ps (out, seen)"
      by simp
    obtain es where es: "fold (emit_group mapping) ps (out, seen)
           = (out @ map (\<lambda>(p, g). group_line p g) es, seen @ map fst es)"
        "set es \<subseteq> set mapping" "distinct (map fst es)"
        "fst ` set es = (set ps \<inter> fst ` set mapping) - set seen"
      using Cons.IH [of out seen] by blast
    have "fst ` set es = (set (p # ps) \<inter> fst ` set mapping) - set seen"
      using es(4) np by auto
    then show ?thesis using es(1-3) unfolding f by blast
  next
    case (Some g)
    then have pg: "(p, g) \<in> set mapping" by (rule map_of_SomeD)
    show ?thesis
    proof (cases "p \<in> set seen")
      case True
      have "emit_group mapping p (out, seen) = (out, seen)"
        using Some True by (simp add: emit_group_def)
      then have f: "fold (emit_group mapping) (p # ps) (out, seen) = fold (emit_group mapping) ps (out, seen)"
        by simp
      obtain es where es: "fold (emit_group mapping) ps (out, seen)
           = (out @ map (\<lambda>(p, g). group_line p g) es, seen @ map fst es)"
          "set es \<subseteq> set mapping" "distinct (map fst es)"
          "fst ` set es = (set ps \<inter> fst ` set mapping) - set seen"
        using Cons.IH [of out seen] by blast
      have "fst ` set es = (set (p # ps) \<inter> fst ` set mapping) - set seen"
        using es(4) True by auto
      then show ?thesis using es(1-3) unfolding f by blast
    next
      case False
      have "emit_group mapping p (out, seen) = (out @ [group_line p g], seen @ [p])"
        using Some False by (simp add: emit_group_def)
      then have f: "fold (emit_group mapping) (p # ps) (out, seen)
                      = fold (emit_group mapping) ps (out @ [group_line p g], seen @ [p])"
        by simp
      obtain es where es: "fold (emit_group mapping) ps (out @ [group_line p g], seen @ [p])
           = ((out @ [group_line p g]) @ map (\<lambda>(p, g). group_line p g) es, (seen @ [p]) @ map fst es)"
          "set es \<subseteq> set mapping" "distinct (map fst es)"
          "fst ` set es = (set ps \<inter> fst ` set mapping) - set (seen @ [p])"
        using Cons.IH [of "out @ [group_line p g]" "seen @ [p]"] by blast
      have 1: "fold (emit_group mapping) (p # ps) (out, seen)
                 = (out @ map (\<lambda>(p, g). group_line p g) ((p, g) # es), seen @ map fst ((p, g) # es))"
        unfolding f es(1) by simp
      have 2: "set ((p, g) # es) \<subseteq> set mapping" using es(2) pg by simp
      have "p \<notin> fst ` set es" using es(4) by auto
      then have 3: "distinct (map fst ((p, g) # es))" using es(3) by simp
      have "p \<in> fst ` set mapping" using pg by force
      then have 4: "fst ` set ((p, g) # es) = (set (p # ps) \<inter> fst ` set mapping) - set seen"
        using es(4) False by auto
      show ?thesis using 1 2 3 4 by blast
    qed
  qed
qed

lemma plugingroups_out_shape:
  assumes "distinct (map fst mapping)"
  shows "\<exists>sep es. plugingroups_out ordered_plugins mapping header others
           = map ensure_nl header @ sep @ map ensure_nl others @ map (\<lambda>(p, g). group_line p g) es
         \<and> (sep = [] \<or> sep = [[CHR 0x0A]])
         \<and> set es = set mapping \<and> distinct (map fst es)"
proof -
  define out2 where "out2 = (if map ensure_nl header \<noteq> [] \<and> strip (last (map ensure_nl header)) \<noteq> []
                             then map ensure_nl header @ [[CHR 0x0A]] else map ensure_nl header)"
  define out3 where "out3 = out2 @ map ensure_nl others"
  obtain sep where sep: "out2 = map ensure_nl header @ sep" "sep = [] \<or> sep = [[CHR 0x0A]]"
    unfolding out2_def by (cases "map ensure_nl header \<noteq> [] \<and> strip (last (map ensure_nl header)) \<noteq> []") auto
  obtain es1 where es1: "fold (emit_group mapping) ordered_plugins (out3, [])
           = (out3 @ map (\<lambda>(p, g). group_line p g) es1, [] @ map fst es1)"
      "set es1 \<subseteq> set mapping" "distinct (map fst es1)"
      "fst ` set es1 = (set ordered_plugins \<inter> fst ` set mapping) - set []"
    using emit_group_fold [of mapping ordered_plugins out3 "[]"] by blast
  let ?ks = "sort_key lower (map fst mapping)"
  obtain es2 where es2: "fold (emit_group mapping) ?ks (out3 @ map (\<lambda>(p, g). group_line p g) es1, [] @ map fst es1)
           = ((out3 @ map (\<lambda>(p, g). group_line p g) es1) @ map (\<lambda>(p, g). group_line p g) es2,
              ([] @ map fst es1) @ map fst es2)"
      "set es2 \<subseteq> set mapping" "distinct (map fst es2)"
      "fst ` set es2 = (set ?ks \<inter> fst ` set mapping) - set ([] @ map fst es1)"
    using emit_group_fold [of mapping ?ks "out3 @ map (\<lambda>(p, g). group_line p g) es1" "[] @ map fst es1"]
    by blast
  have r: "plugingroups_out ordered_plugins mapping header others
             = map ensure_nl header @ sep @ map ensure_nl others @ map (\<lambda>(p, g). group_line p g) (es1 @ es2)"
    unfolding plugingroups_out_def Let_def out2_def [symmetric] out3_def [symmetric] es1(1) es2(1)
    by (simp add: out3_def sep(1))
  have k2: "fst ` set es2 = fst ` set mapping - fst ` set es1" using es2(4) by auto
  have d: "distinct (map fst (es1 @ es2))" using es1(3) es2(3) k2 by auto
  have keys: "fst ` set (es1 @ es2) = fst ` set mapping"
    using k2 es1(2) by (auto simp: image_Un)
  have sub: "set (es1 @ es2) \<subseteq> set mapping" using es1(2) es2(2) by simp
  have "set mapping \<subseteq> set (es1 @ es2)"
  proof
    fix kv assume kv: "kv \<in> set mapping"
    obtain k v where e: "kv = (k, v)" by (cases kv)
    then have "k \<in> fst ` set (es1 @ es2)" using kv keys by force
    then obtain v' where v': "(k, v') \<in> set (es1 @ es2)" by fastforce
    then have "(k, v') \<in> set mapping" using sub by blast
    then have "v' = v" using assms kv e by (meson eq_key_imp_eq_value)
    then show "kv \<in> set (es1 @ es2)" using v' e by simp
  qed
  then have "set (es1 @ es2) = set mapping" using sub by blast
  then show ?thesis using r sep(2) d by blast
qed

lemma merge_group_map_facts:
  assumes "distinct (map fst existing_map)"
  shows "distinct (map fst (merge_group_map existing_map group_map))"
    and "(k, v) \<in> set existing_map \<Longrightarrow>
           \<exists>v'. (k, v') \<in> set (merge_group_map existing_map group_map)
              \<and> (v' = v \<or> (\<exists>(p, g) \<in> set group_map. strip p = k \<and> strip g = v'))"
proof -
  have gen: "distinct (map fst d) \<Longrightarrow>
      distinct (map fst (merge_group_map d gm))
      \<and> (\<forall>k v. map_of d k = Some v \<longrightarrow>
            (\<exists>v'. map_of (merge_group_map d gm) k = Some v'
               \<and> (v' = v \<or> (\<exists>(p, g) \<in> set gm. strip p = k \<and> strip g = v'))))" for d gm
  proof (induction gm arbitrary: d)
    case Nil
    then show ?case by (simp add: merge_group_map_def)
  next
    case (Cons pg gm)
    obtain p g where pg: "pg = (p, g)" by (cases pg)
    define d1 where "d1 = (if strip p \<noteq> [] \<and> strip g \<noteq> [] then dict_set (strip p) (strip g) d else d)"
    have m: "merge_group_map d (pg # gm) = merge_group_map d1 gm"
      by (simp add: merge_group_map_def pg d1_def Let_def)
    have dd: "distinct (map fst d1)" using Cons.prems by (simp add: d1_def dict_set_distinct)
    note ih = Cons.IH [OF dd]
    have "\<forall>k v. map_of d k = Some v \<longrightarrow>
            (\<exists>v'. map_of (merge_group_map d1 gm) k = Some v'
               \<and> (v' = v \<or> (\<exists>(p, g) \<in> set (pg # gm). strip p = k \<and> strip g = v')))"
    proof (intro allI impI)
      fix k v assume kv: "map_of d k = Some v"
      have "\<exists>v1. map_of d1 k = Some v1 \<and> (v1 = v \<or> (strip p = k \<and> strip g = v1))"
        using kv by (auto simp: d1_def dict_set_map_of)
      then obtain v1 where v1: "map_of d1 k = Some v1" "v1 = v \<or> (strip p = k \<and> strip g = v1)"
        by blast
      obtain v' where v': "map_of (merge_group_map d1 gm) k = Some v'"
          "v' = v1 \<or> (\<exists>(p, g) \<in> set gm. strip p = k \<and> strip g = v')"
        using ih v1(1) by blast
      have "v' = v \<or> (\<exists>(p, g) \<in> set (pg # gm). strip p = k \<and> strip g = v')"
        using v1(2) v'(2) pg by auto
      then show "\<exists>v'. map_of (merge_group_map d1 gm) k = Some v'
               \<and> (v' = v \<or> (\<exists>(p, g) \<in> set (pg # gm). strip p = k \<and> strip g = v'))"
        using v'(1) by blast
    qed
    then show ?case using ih unfolding m by blast
  qed
  show "distinct (map fst (merge_group_map existing_map group_map))"
    using gen [OF assms] by blast
  assume "(k, v) \<in> set existing_map"
  then have "map_of existing_map k = Some v" using assms by simp
  then obtain v' where "map_of (merge_group_map existing_map group_map) k = Some v'"
      "v' = v \<or> (\<exists>(p, g) \<in> set group_map. strip p = k \<and> strip g = v')"
    using gen [OF assms, of group_map] by blast
  then show "\<exists>v'. (k, v') \<in> set (merge_group_map existing_map group_map)
              \<and> (v' = v \<or> (\<exists>(p, g) \<in> set group_map. strip p = k \<and> strip g = v'))"
    by (blast dest: map_of_SomeD)
qed


lemma write_plugingroups_file_result:
  "(fst (write_plugingroups_file faults fs p ordered_plugins mapping header others) = Inr ()
      \<longrightarrow> snd (write_plugingroups_file faults fs p ordered_plugins mapping header others) p
            = Some (concat (plugingroups_out ordered_plugins mapping header others)))
   \<and> (fst (write_plugingroups_file faults fs p ordered_plugins mapping header others) \<noteq> Inr ()
      \<longrightarrow> snd (write_plugingroups_file faults fs p ordered_plugins mapping header others) p = fs p)"
  by (simp add: write_plugingroups_file_def fs_mkdir_parent_def atomic_write_result)



text \<open>
  C9. The group file is there and readable, and a non-empty \<open>plugin_groups\<close> is merged.
  The reader keeps every line of the file: the comment and blank lines before the first
  other line are the header, the lines after them that are not \<open>plugin|group\<close> entries are
  the other lines, and the entries make the mapping, the last line of a plugin giving its
  group. Every plugin with an entry in the file has one in the merged mapping, with its
  group unless an entry of the merge source with the same stripped plugin name replaced
  it. When the synchronization writes, the new text is the header lines (the default header
  when the file had none), an optional blank line, the other lines, then one
  \<open>plugin|group\<close> line for each entry of the merged mapping, each header and other line as
  it was in the file, followed by a newline. When nothing differs no file is touched, and
  when the write fails the group file is as it was.
\<close>

theorem sync_plugingroups_keeps:
  fixes faults :: faults and fs :: fs and lpath gpath content :: string and group_map :: dict
  defines "ls \<equiv> splitlines content"
  defines "existing_map \<equiv>
    fold (\<lambda>l d. case groups_entry l of None \<Rightarrow> d | Some (p, g) \<Rightarrow> dict_set p g d) ls []"
  defines "head \<equiv> takeWhile groups_comment_line ls"
  defines "others \<equiv> filter (\<lambda>l. groups_entry l = None) (dropWhile groups_comment_line ls)"
  defines "target \<equiv> merge_group_map existing_map group_map"
  defines "result \<equiv> sync_plugingroups faults fs lpath gpath group_map"
  assumes rd: "fs_read_text faults fs gpath = Inr content" and ne: "group_map \<noteq> []"
  shows
    "read_plugingroups_file faults fs gpath
       = (existing_map, if head = [] then default_groups_header else head, others)
     \<and> filter (\<lambda>l. groups_entry l = None) ls = head @ others
     \<and> (\<forall>l \<in> set ls. \<forall>p g. groups_entry l = Some (p, g) \<longrightarrow> (\<exists>v. (p, v) \<in> set target))
     \<and> (\<forall>k v. (k, v) \<in> set existing_map \<longrightarrow>
          (\<exists>v'. (k, v') \<in> set target
             \<and> (v' = v \<or> (\<exists>(p, g) \<in> set group_map. strip p = k \<and> strip g = v'))))
     \<and> (fst result = Inr Groups_synchronized \<longrightarrow>
          (\<exists>sep es. snd result gpath
               = Some (concat ((if head = [] then default_groups_header
                                else map (\<lambda>l. l @ [CHR 0x0A]) head)
                               @ sep @ map (\<lambda>l. l @ [CHR 0x0A]) others
                               @ map (\<lambda>(p, g). group_line p g) es))
             \<and> (sep = [] \<or> sep = [[CHR 0x0A]])
             \<and> set es = set target \<and> distinct (map fst es)))
     \<and> (fst result = Inr Groups_unchanged \<longrightarrow> snd result = fs \<and> set target = set existing_map)
     \<and> (\<forall>e. fst result = Inl e \<longrightarrow> snd result gpath = fs gpath)
     \<and> fst result \<noteq> Inr Groups_missing"
proof -
  define header where "header = (if head = [] then default_groups_header else head)"
  define order where "order = (case fs_read_text faults fs lpath of
                        Inl e \<Rightarrow> []
                      | Inr t \<Rightarrow> map strip (filter (\<lambda>x. strip x \<noteq> []) (splitlines t)))"
  define w where "w = write_plugingroups_file faults fs gpath order target header others"
  have r0: "read_plugingroups_file faults fs gpath = (existing_map, header, others)"
    unfolding existing_map_def header_def head_def others_def ls_def
    using rd by (rule read_plugingroups_file_kinds)
  have nb: "\<forall>l \<in> set ls. ensure_nl l = l @ [CHR 0x0A]"
    unfolding ls_def using splitlines_lines line_without_newline(2) by blast
  have 1: "filter (\<lambda>l. groups_entry l = None) ls = head @ others"
  proof -
    have "filter (\<lambda>l. groups_entry l = None) head = head"
      unfolding head_def by (intro filter_True) (auto dest: set_takeWhileD groups_entry_comment)
    moreover have "ls = head @ dropWhile groups_comment_line ls"
      unfolding head_def by simp
    ultimately show ?thesis unfolding others_def by (metis filter_append)
  qed
  have de: "distinct (map fst existing_map)"
    unfolding existing_map_def by (rule entries_fold_distinct) simp
  have dt: "distinct (map fst target)"
    unfolding target_def using de by (rule merge_group_map_facts(1))
  have keep: "\<forall>k v. (k, v) \<in> set existing_map \<longrightarrow>
        (\<exists>v'. (k, v') \<in> set target
           \<and> (v' = v \<or> (\<exists>(p, g) \<in> set group_map. strip p = k \<and> strip g = v')))"
    unfolding target_def using merge_group_map_facts(2) [OF de] by blast
  have keys: "\<forall>l \<in> set ls. \<forall>p g. groups_entry l = Some (p, g) \<longrightarrow> (\<exists>v. (p, v) \<in> set target)"
  proof (intro ballI allI impI)
    fix l p g assume l: "l \<in> set ls" and e: "groups_entry l = Some (p, g)"
    then have "p \<in> fst ` set existing_map"
      unfolding existing_map_def entries_fold_keys by blast
    then obtain v where "(p, v) \<in> set existing_map" by fastforce
    then show "\<exists>v. (p, v) \<in> set target" using keep by blast
  qed
  have s: "result
             = (if set target \<noteq> set existing_map then
                  (case w of (Inl e, fs1) \<Rightarrow> (Inl e, fs1) | (Inr u, fs1) \<Rightarrow> (Inr Groups_synchronized, fs1))
                else (Inr Groups_unchanged, fs))"
    using ne by (simp add: result_def sync_plugingroups_def r0 Let_def target_def order_def w_def)
  obtain sep es where out:
      "plugingroups_out order target header others
         = map ensure_nl header @ sep @ map ensure_nl others @ map (\<lambda>(p, g). group_line p g) es"
      "sep = [] \<or> sep = [[CHR 0x0A]]" "set es = set target" "distinct (map fst es)"
    using plugingroups_out_shape [OF dt, of order header others] by blast
  have ho: "map ensure_nl others = map (\<lambda>l. l @ [CHR 0x0A]) others"
    using nb unfolding others_def by (intro map_cong) (auto dest: set_dropWhileD)
  have hh: "map ensure_nl header
              = (if head = [] then default_groups_header else map (\<lambda>l. l @ [CHR 0x0A]) head)"
  proof (cases "head = []")
    case True
    have "ensure_nl (''# This file is managed by StartupDashboard (plugin_groups)'' @ [CHR 0x0A])
            = ''# This file is managed by StartupDashboard (plugin_groups)'' @ [CHR 0x0A]"
      by (rule ensure_nl_ended) simp_all
    then show ?thesis using True by (simp add: header_def default_groups_header_def)
  next
    case False
    have "map ensure_nl head = map (\<lambda>l. l @ [CHR 0x0A]) head"
      using nb unfolding head_def by (intro map_cong) (auto dest: set_takeWhileD)
    then show ?thesis using False by (simp add: header_def)
  qed
  have wr: "fst w = Inr () \<longrightarrow> snd w gpath = Some (concat (plugingroups_out order target header others))"
    and wf: "fst w \<noteq> Inr () \<longrightarrow> snd w gpath = fs gpath"
    unfolding w_def using write_plugingroups_file_result by blast+
  have 2: "fst result = Inr Groups_synchronized \<longrightarrow>
          (\<exists>sep es. snd result gpath
               = Some (concat ((if head = [] then default_groups_header
                                else map (\<lambda>l. l @ [CHR 0x0A]) head)
                               @ sep @ map (\<lambda>l. l @ [CHR 0x0A]) others
                               @ map (\<lambda>(p, g). group_line p g) es))
             \<and> (sep = [] \<or> sep = [[CHR 0x0A]])
             \<and> set es = set target \<and> distinct (map fst es))"
  proof
    assume a: "fst result = Inr Groups_synchronized"
    then have "fst w = Inr () \<and> snd result = snd w"
      unfolding s by (cases w; cases "fst w") (auto split: if_splits)
    then have "snd result gpath = Some (concat (plugingroups_out order target header others))"
      using wr by simp
    then have "snd result gpath
               = Some (concat ((if head = [] then default_groups_header
                                else map (\<lambda>l. l @ [CHR 0x0A]) head)
                               @ sep @ map (\<lambda>l. l @ [CHR 0x0A]) others
                               @ map (\<lambda>(p, g). group_line p g) es))"
      unfolding out(1) hh ho .
    then show "\<exists>sep es. snd result gpath
               = Some (concat ((if head = [] then default_groups_header
                                else map (\<lambda>l. l @ [CHR 0x0A]) head)
                               @ sep @ map (\<lambda>l. l @ [CHR 0x0A]) others
                               @ map (\<lambda>(p, g). group_line p g) es))
             \<and> (sep = [] \<or> sep = [[CHR 0x0A]])
             \<and> set es = set target \<and> distinct (map fst es)"
      using out(2-4) by blast
  qed
  have 3: "fst result = Inr Groups_unchanged \<longrightarrow> snd result = fs \<and> set target = set existing_map"
    unfolding s by (cases w; cases "fst w") (auto split: if_splits)
  have 4: "\<forall>e. fst result = Inl e \<longrightarrow> snd result gpath = fs gpath"
  proof (intro allI impI)
    fix e assume a: "fst result = Inl e"
    then have "fst w \<noteq> Inr () \<and> snd result = snd w"
      unfolding s by (cases w; cases "fst w") (auto split: if_splits)
    then show "snd result gpath = fs gpath" using wf by simp
  qed
  have 5: "fst result \<noteq> Inr Groups_missing"
    unfolding s by (cases w; cases "fst w") (auto split: if_splits)
  show ?thesis
    using r0 1 keys keep 2 3 4 5 unfolding header_def by blast
qed

theorem sync_plugingroups_keeps_witness:
  "read_plugingroups_file (\<lambda>op. False) [''g'' \<mapsto> ''# h'' @ [CHR 0x0A] @ ''a.esp | G1'' @ [CHR 0x0A] @ ''# note'' @ [CHR 0x0A] @ ''junk'' @ [CHR 0x0A] @ ''b.esp|G2'', ''l'' \<mapsto> ''b.esp'' @ [CHR 0x0A]] ''g''
     = ([(''a.esp'', ''G1''), (''b.esp'', ''G2'')], [''# h''], [''# note'', ''junk''])
   \<and> fst (sync_plugingroups (\<lambda>op. False) [''g'' \<mapsto> ''# h'' @ [CHR 0x0A] @ ''a.esp | G1'' @ [CHR 0x0A] @ ''# note'' @ [CHR 0x0A] @ ''junk'' @ [CHR 0x0A] @ ''b.esp|G2'', ''l'' \<mapsto> ''b.esp'' @ [CHR 0x0A]] ''l'' ''g'' [(''c.esp'', ''G3''), (''a.esp'', ''G9'')]) = Inr Groups_synchronized
   \<and> snd (sync_plugingroups (\<lambda>op. False) [''g'' \<mapsto> ''# h'' @ [CHR 0x0A] @ ''a.esp | G1'' @ [CHR 0x0A] @ ''# note'' @ [CHR 0x0A] @ ''junk'' @ [CHR 0x0A] @ ''b.esp|G2'', ''l'' \<mapsto> ''b.esp'' @ [CHR 0x0A]] ''l'' ''g'' [(''c.esp'', ''G3''), (''a.esp'', ''G9'')]) ''g''
        = Some (''# h'' @ [CHR 0x0A] @ [CHR 0x0A] @ ''# note'' @ [CHR 0x0A] @ ''junk'' @ [CHR 0x0A]
                @ ''b.esp|G2'' @ [CHR 0x0A] @ ''a.esp|G9'' @ [CHR 0x0A] @ ''c.esp|G3'' @ [CHR 0x0A])
   \<and> (\<exists>sep es. snd (sync_plugingroups (\<lambda>op. False) [''g'' \<mapsto> ''# h'' @ [CHR 0x0A] @ ''a.esp | G1'' @ [CHR 0x0A] @ ''# note'' @ [CHR 0x0A] @ ''junk'' @ [CHR 0x0A] @ ''b.esp|G2'', ''l'' \<mapsto> ''b.esp'' @ [CHR 0x0A]] ''l'' ''g'' [(''c.esp'', ''G3''), (''a.esp'', ''G9'')]) ''g''
          = Some (concat (map (\<lambda>l. l @ [CHR 0x0A]) [''# h''] @ sep
                           @ map (\<lambda>l. l @ [CHR 0x0A]) [''# note'', ''junk'']
                           @ map (\<lambda>(p, g). group_line p g) es))
        \<and> (sep = [] \<or> sep = [[CHR 0x0A]])
        \<and> set es = set (merge_group_map [(''a.esp'', ''G1''), (''b.esp'', ''G2'')] [(''c.esp'', ''G3''), (''a.esp'', ''G9'')])
        \<and> distinct (map fst es))"
proof -
  let ?t = "''# h'' @ [CHR 0x0A] @ ''a.esp | G1'' @ [CHR 0x0A] @ ''# note'' @ [CHR 0x0A] @ ''junk'' @ [CHR 0x0A] @ ''b.esp|G2''"
  have rd: "fs_read_text (\<lambda>op. False) [''g'' \<mapsto> ''# h'' @ [CHR 0x0A] @ ''a.esp | G1'' @ [CHR 0x0A] @ ''# note'' @ [CHR 0x0A] @ ''junk'' @ [CHR 0x0A] @ ''b.esp|G2'', ''l'' \<mapsto> ''b.esp'' @ [CHR 0x0A]] ''g'' = Inr ?t"
    by (simp add: fs_read_text_def)
  have ne: "[(''c.esp'', ''G3''), (''a.esp'', ''G9'')] \<noteq> []" by simp
  have em: "fold (\<lambda>l d. case groups_entry l of None \<Rightarrow> d | Some (p, g) \<Rightarrow> dict_set p g d)
              (splitlines ?t) [] = [(''a.esp'', ''G1''), (''b.esp'', ''G2'')]"
    by code_simp
  have hd: "takeWhile groups_comment_line (splitlines ?t) = [''# h'']"
    by code_simp
  have ot: "filter (\<lambda>l. groups_entry l = None) (dropWhile groups_comment_line (splitlines ?t))
              = [''# note'', ''junk'']"
    by code_simp
  have a: "fst (sync_plugingroups (\<lambda>op. False) [''g'' \<mapsto> ''# h'' @ [CHR 0x0A] @ ''a.esp | G1'' @ [CHR 0x0A] @ ''# note'' @ [CHR 0x0A] @ ''junk'' @ [CHR 0x0A] @ ''b.esp|G2'', ''l'' \<mapsto> ''b.esp'' @ [CHR 0x0A]] ''l'' ''g'' [(''c.esp'', ''G3''), (''a.esp'', ''G9'')]) = Inr Groups_synchronized" by code_simp
  have v: "snd (sync_plugingroups (\<lambda>op. False) [''g'' \<mapsto> ''# h'' @ [CHR 0x0A] @ ''a.esp | G1'' @ [CHR 0x0A] @ ''# note'' @ [CHR 0x0A] @ ''junk'' @ [CHR 0x0A] @ ''b.esp|G2'', ''l'' \<mapsto> ''b.esp'' @ [CHR 0x0A]] ''l'' ''g'' [(''c.esp'', ''G3''), (''a.esp'', ''G9'')]) ''g''
        = Some (''# h'' @ [CHR 0x0A] @ [CHR 0x0A] @ ''# note'' @ [CHR 0x0A] @ ''junk'' @ [CHR 0x0A]
                @ ''b.esp|G2'' @ [CHR 0x0A] @ ''a.esp|G9'' @ [CHR 0x0A] @ ''c.esp|G3'' @ [CHR 0x0A])"
    by code_simp
  note t = sync_plugingroups_keeps [OF rd ne, where lpath = "''l''"]
  have r: "read_plugingroups_file (\<lambda>op. False) [''g'' \<mapsto> ''# h'' @ [CHR 0x0A] @ ''a.esp | G1'' @ [CHR 0x0A] @ ''# note'' @ [CHR 0x0A] @ ''junk'' @ [CHR 0x0A] @ ''b.esp|G2'', ''l'' \<mapsto> ''b.esp'' @ [CHR 0x0A]] ''g''
     = ([(''a.esp'', ''G1''), (''b.esp'', ''G2'')], [''# h''], [''# note'', ''junk''])"
    using t [THEN conjunct1] unfolding em hd ot by simp
  have x: "\<exists>sep es. snd (sync_plugingroups (\<lambda>op. False) [''g'' \<mapsto> ''# h'' @ [CHR 0x0A] @ ''a.esp | G1'' @ [CHR 0x0A] @ ''# note'' @ [CHR 0x0A] @ ''junk'' @ [CHR 0x0A] @ ''b.esp|G2'', ''l'' \<mapsto> ''b.esp'' @ [CHR 0x0A]] ''l'' ''g'' [(''c.esp'', ''G3''), (''a.esp'', ''G9'')]) ''g''
          = Some (concat (map (\<lambda>l. l @ [CHR 0x0A]) [''# h''] @ sep
                           @ map (\<lambda>l. l @ [CHR 0x0A]) [''# note'', ''junk'']
                           @ map (\<lambda>(p, g). group_line p g) es))
        \<and> (sep = [] \<or> sep = [[CHR 0x0A]])
        \<and> set es = set (merge_group_map [(''a.esp'', ''G1''), (''b.esp'', ''G2'')] [(''c.esp'', ''G3''), (''a.esp'', ''G9'')])
        \<and> distinct (map fst es)"
    using t [THEN conjunct2, THEN conjunct2, THEN conjunct2, THEN conjunct2, THEN conjunct1, THEN mp, OF a]
    unfolding em hd ot by simp
  show ?thesis using r a v x by blast
qed

end
